theory Spec2Isabelle
  imports Main "HOL-Library.Sublist" "HOL-Library.While_Combinator"
begin

section \<open>ANSI to HTML converter (export-html/ansi-to-html.ts)\<close>

text \<open>
  A JavaScript string is modelled as a \<^typ>\<open>string\<close>, a list of characters that stand
  for its code units: the converter tests a unit only against \<open>ESC\<close>, \<open>[\<close>, the
  digits, \<open>;\<close>, \<open>m\<close>, \<open>&\<close>, \<open><\<close> and \<open>>\<close>, and copies every other unit as it is.

  A JavaScript number that holds a parsed decimal parameter is modelled as a
  \<^typ>\<open>nat\<close>. The source holds it in a double: below \<open>2^53\<close> a double is the integer
  itself and prints as its decimal digits, so there the model and the source
  agree; from \<open>2^53\<close> on the source rounds the parameter and, from \<open>10^21\<close> on,
  prints it with an exponent, which the model does not follow. A statement about
  the value or the printed digits of a parameter therefore carries the bound
  \<open>safe_integer\<close> (below \<open>2^53\<close>); the tests of the if-chain against the codes up to
  107 are not affected, since rounding keeps a parameter from \<open>2^53\<close> on above them.
\<close>

subsection \<open>Library functions of the host language\<close>

abbreviation ESC :: char where
  "ESC \<equiv> CHR 0x1B"

text \<open>\<^verbatim>\<open>xs[i]\<close>: reading past the end of an array yields \<^verbatim>\<open>undefined\<close>.\<close>

definition at :: "'a list \<Rightarrow> nat \<Rightarrow> 'a option" where
  "at xs i = (if i < length xs then Some (xs ! i) else None)"

text \<open>\<^verbatim>\<open>s.slice(a, b)\<close> for non-negative \<open>a\<close> and \<open>b\<close>.\<close>

definition slice :: "nat \<Rightarrow> nat \<Rightarrow> string \<Rightarrow> string" where
  "slice a b s = take (b - a) (drop a s)"

text \<open>\<^verbatim>\<open>xs.join(sep)\<close>.\<close>

fun join :: "string \<Rightarrow> string list \<Rightarrow> string" where
  "join sep [] = []"
| "join sep [x] = x"
| "join sep (x # y # ys) = x @ sep @ join sep (y # ys)"

text \<open>\<^verbatim>\<open>s.split(sep)\<close> for a one-character separator: the empty string splits into one
  empty token.\<close>

fun split :: "char \<Rightarrow> string \<Rightarrow> string list" where
  "split sep [] = [[]]"
| "split sep (c # cs) =
     (if c = sep then [] # split sep cs
      else (case split sep cs of
              [] \<Rightarrow> [[c]]
            | t # ts \<Rightarrow> (c # t) # ts))"

text \<open>\<^verbatim>\<open>s.replace(/c/g, r)\<close> for a one-character pattern.\<close>

definition replaceAll :: "char \<Rightarrow> string \<Rightarrow> string \<Rightarrow> string" where
  "replaceAll c r s = concat (map (\<lambda>x. if x = c then r else [x]) s)"

text \<open>\<^verbatim>\<open>s.padStart(n, c)\<close> for a one-character filler.\<close>

definition padStart :: "nat \<Rightarrow> char \<Rightarrow> string \<Rightarrow> string" where
  "padStart n c s = replicate (n - length s) c @ s"

text \<open>The digit characters of \<^verbatim>\<open>Number.prototype.toString(radix)\<close>.\<close>

definition digit_char :: "nat \<Rightarrow> char" where
  "digit_char d = ''0123456789abcdefghijklmnopqrstuvwxyz'' ! d"

text \<open>\<^verbatim>\<open>n.toString(radix)\<close> for a non-negative integer \<open>n\<close> below \<open>2^53\<close>; a template
  literal \<^verbatim>\<open>${n}\<close> is \<open>toString 10 n\<close>. The source uses the radices 10 and 16 only; the
  test \<open>radix < 2\<close> makes the recursion end for every argument.\<close>

function toString :: "nat \<Rightarrow> nat \<Rightarrow> string" where
  "toString radix n =
     (if radix < 2 \<or> n < radix then [digit_char n]
      else toString radix (n div radix) @ [digit_char (n mod radix)])"
  by pat_completeness auto
termination
  by (relation "measure (\<lambda>(radix, n). n)") auto

text \<open>\<^verbatim>\<open>Number.parseInt(s, 10)\<close> on a string of decimal digits that denotes a
  number below \<open>2^53\<close>; the tokens that the converter parses are strings of digits
  (\<open>tokens_are_digits\<close> below).\<close>

definition digit_val :: "char \<Rightarrow> nat" where
  "digit_val c = of_char c - 48"

definition parseInt :: "string \<Rightarrow> nat" where
  "parseInt s = foldl (\<lambda>acc c. acc * 10 + digit_val c) 0 s"

subsection \<open>The colour model\<close>

definition ANSI_COLORS_16 :: "nat \<rightharpoonup> string" where
  "ANSI_COLORS_16 = map_of
     [(0, ''#000000''), (1, ''#cd0000''), (2, ''#00cd00''), (3, ''#cdcd00''),
      (4, ''#0000ee''), (5, ''#cd00cd''), (6, ''#00cdcd''), (7, ''#e5e5e5''),
      (8, ''#7f7f7f''), (9, ''#ff0000''), (10, ''#00ff00''), (11, ''#ffff00''),
      (12, ''#5c5cff''), (13, ''#ff00ff''), (14, ''#00ffff''), (15, ''#ffffff'')]"

text \<open>\<^verbatim>\<open>v || d\<close> on an optional string: \<^verbatim>\<open>undefined\<close> and the empty string are falsy.\<close>

definition or_else :: "string option \<Rightarrow> string \<Rightarrow> string" where
  "or_else v d = (case v of None \<Rightarrow> d | Some s \<Rightarrow> if s = [] then d else s)"

definition toHex :: "nat \<Rightarrow> string" where
  "toHex c = padStart 2 (CHR ''0'') (toString 16 (if c = 0 then 0 else 55 + c * 40))"

text \<open>
  The resolver of an index. Its arithmetic is that of the source for every index
  below \<open>2^53 div 10\<close>, which covers the indices up to 255 by far.
\<close>

definition ansi256ToHex :: "nat \<Rightarrow> string" where
  "ansi256ToHex code =
     (if code < 16 then or_else (ANSI_COLORS_16 code) ''#ffffff''
      else if code < 232 then
        (let n = code - 16;
             r = n div 36;
             g = (n mod 36) div 6;
             b = n mod 6
         in ''#'' @ toHex r @ toHex g @ toHex b)
      else
        (let gray = (code - 232) * 10 + 8;
             hex = padStart 2 (CHR ''0'') (toString 16 gray)
         in ''#'' @ hex @ hex @ hex))"

subsection \<open>The style state\<close>

record StyleState =
  fg :: "string option"
  bg :: "string option"
  bold :: "bool option"
  italic :: "bool option"
  underline :: "bool option"
  dim :: "bool option"

text \<open>\<^verbatim>\<open>const state: StyleState = {}\<close>: every field is \<^verbatim>\<open>undefined\<close>.\<close>

definition empty_state :: StyleState where
  "empty_state = \<lparr>fg = None, bg = None, bold = None, italic = None,
                   underline = None, dim = None\<rparr>"

text \<open>Truthiness of an optional string and of an optional boolean.\<close>

definition truthy_str :: "string option \<Rightarrow> bool" where
  "truthy_str v = (case v of None \<Rightarrow> False | Some s \<Rightarrow> s \<noteq> [])"

definition truthy_bool :: "bool option \<Rightarrow> bool" where
  "truthy_bool v = (case v of None \<Rightarrow> False | Some b \<Rightarrow> b)"

text \<open>The array \<^verbatim>\<open>styles\<close> that \<^verbatim>\<open>openSpan\<close> builds from the state.\<close>

definition styles :: "StyleState \<Rightarrow> string list" where
  "styles state =
       (if truthy_str (fg state) then [''color:'' @ the (fg state)] else [])
     @ (if truthy_str (bg state) then [''background-color:'' @ the (bg state)] else [])
     @ (if truthy_bool (bold state) then [''font-weight:bold''] else [])
     @ (if truthy_bool (italic state) then [''font-style:italic''] else [])
     @ (if truthy_bool (underline state) then [''text-decoration:underline''] else [])
     @ (if truthy_bool (dim state) then [''opacity:0.6''] else [])"

definition openSpan :: "StyleState \<Rightarrow> string" where
  \<open>openSpan state =
     (if length (styles state) > 0
      then ''<span style="'' @ join '';'' (styles state) @ ''">''
      else [])\<close>

definition hasStyle :: "StyleState \<Rightarrow> bool" where
  "hasStyle state =
     (truthy_str (fg state) \<or> truthy_str (bg state) \<or> truthy_bool (bold state)
      \<or> truthy_bool (italic state) \<or> truthy_bool (underline state)
      \<or> truthy_bool (dim state))"

definition escapeHtml :: "string \<Rightarrow> string" where
  "escapeHtml s =
     replaceAll (CHR ''>'') ''&gt;''
       (replaceAll (CHR ''<'') ''&lt;''
          (replaceAll (CHR ''&'') ''&amp;'' s))"

subsection \<open>The escape pattern\<close>

text \<open>
  The pattern is \<^verbatim>\<open>/\x1b\[([0-9;]*)m/g\<close>. The starred class is greedy and the class
  holds no \<open>m\<close>, so backtracking never finds a match that the longest run of
  parameter characters misses: the pattern matches at a position exactly when
  \<open>ESC\<close> and \<open>[\<close> are followed by the longest run of digits and semicolons and then
  by \<open>m\<close>.
\<close>

definition is_param :: "char \<Rightarrow> bool" where
  "is_param c = (c \<in> set ''0123456789;'')"

record RegExpMatch =
  index :: nat
  whole :: string
  group1 :: string

text \<open>The pattern tried at the start of a string: the first capture group of the match.\<close>

definition exec_at :: "string \<Rightarrow> string option" where
  "exec_at s =
     (case s of
        e # b # rest \<Rightarrow>
          if e = ESC \<and> b = CHR ''[''
          then (case dropWhile is_param rest of
                  [] \<Rightarrow> None
                | m # _ \<Rightarrow> if m = CHR ''m'' then Some (takeWhile is_param rest) else None)
          else None
      | _ \<Rightarrow> None)"

text \<open>\<^verbatim>\<open>text.matchAll(ansiRegex)\<close>: the matches from left to right, each search
  resuming where the previous match ended. The matched text \<^verbatim>\<open>match[0]\<close> is \<open>ESC\<close>, \<open>[\<close>,
  the capture group and \<open>m\<close> (\<open>exec_at_Some\<close> below).\<close>

function matchAll_from :: "string \<Rightarrow> nat \<Rightarrow> RegExpMatch list" where
  "matchAll_from text pos =
     (if pos < length text then
        (case exec_at (drop pos text) of
           Some ps \<Rightarrow>
             \<lparr>index = pos, whole = ESC # CHR ''['' # ps @ ''m'', group1 = ps\<rparr>
               # matchAll_from text (pos + length (ESC # CHR ''['' # ps @ ''m''))
         | None \<Rightarrow> matchAll_from text (Suc pos))
      else [])"
  by pat_completeness auto
termination
  by (relation "measure (\<lambda>(text, pos). length text - pos)") auto

definition matchAll :: "string \<Rightarrow> RegExpMatch list" where
  "matchAll text = matchAll_from text 0"

subsection \<open>Interpreting the codes of one sequence\<close>

text \<open>\<^verbatim>\<open>match[1].split(";").map((s) => (s === "" ? 0 : Number.parseInt(s, 10)))\<close>\<close>

definition parse_codes :: "string \<Rightarrow> nat list" where
  "parse_codes ps = map (\<lambda>s. if s = [] then 0 else parseInt s) (split (CHR '';'') ps)"

text \<open>
  The if-chain in the body of the \<^verbatim>\<open>while\<close> loop, for \<open>i < length codes\<close>: the index
  and the state as they are just before the final \<^verbatim>\<open>i++\<close>.
\<close>

definition sgr_code :: "nat list \<Rightarrow> nat \<Rightarrow> StyleState \<Rightarrow> nat \<times> StyleState" where
  "sgr_code codes i state =
     (let code = codes ! i in
      if code = 0 then
        (i, state\<lparr>fg := None, bg := None, bold := None, italic := None,
                  underline := None, dim := None\<rparr>)
      else if code = 1 then (i, state\<lparr>bold := Some True\<rparr>)
      else if code = 2 then (i, state\<lparr>dim := Some True\<rparr>)
      else if code = 3 then (i, state\<lparr>italic := Some True\<rparr>)
      else if code = 4 then (i, state\<lparr>underline := Some True\<rparr>)
      else if code = 22 then (i, state\<lparr>bold := None, dim := None\<rparr>)
      else if code = 23 then (i, state\<lparr>italic := None\<rparr>)
      else if code = 24 then (i, state\<lparr>underline := None\<rparr>)
      else if code \<ge> 30 \<and> code \<le> 37 then (i, state\<lparr>fg := ANSI_COLORS_16 (code - 30)\<rparr>)
      else if code = 38 then
        (if at codes (i + 1) = Some 5 \<and> at codes (i + 2) \<noteq> None then
           (i + 2, state\<lparr>fg := Some (ansi256ToHex (codes ! (i + 2)))\<rparr>)
         else if at codes (i + 1) = Some 2 \<and> at codes (i + 4) \<noteq> None then
           (let r = codes ! (i + 2);
                g = codes ! (i + 3);
                b = codes ! (i + 4)
            in (i + 4, state\<lparr>fg := Some (''rgb('' @ toString 10 r @ '','' @ toString 10 g
                                              @ '','' @ toString 10 b @ '')'')\<rparr>))
         else (i, state))
      else if code = 39 then (i, state\<lparr>fg := None\<rparr>)
      else if code \<ge> 40 \<and> code \<le> 47 then (i, state\<lparr>bg := ANSI_COLORS_16 (code - 40)\<rparr>)
      else if code = 48 then
        (if at codes (i + 1) = Some 5 \<and> at codes (i + 2) \<noteq> None then
           (i + 2, state\<lparr>bg := Some (ansi256ToHex (codes ! (i + 2)))\<rparr>)
         else if at codes (i + 1) = Some 2 \<and> at codes (i + 4) \<noteq> None then
           (let r = codes ! (i + 2);
                g = codes ! (i + 3);
                b = codes ! (i + 4)
            in (i + 4, state\<lparr>bg := Some (''rgb('' @ toString 10 r @ '','' @ toString 10 g
                                              @ '','' @ toString 10 b @ '')'')\<rparr>))
         else (i, state))
      else if code = 49 then (i, state\<lparr>bg := None\<rparr>)
      else if code \<ge> 90 \<and> code \<le> 97 then (i, state\<lparr>fg := ANSI_COLORS_16 (code - 90 + 8)\<rparr>)
      else if code \<ge> 100 \<and> code \<le> 107 then (i, state\<lparr>bg := ANSI_COLORS_16 (code - 100 + 8)\<rparr>)
      else (i, state))"

lemma sgr_code_index: "i \<le> fst (sgr_code codes i state)"
  by (simp add: sgr_code_def Let_def)

text \<open>The \<^verbatim>\<open>while (i < codes.length)\<close> loop.\<close>

function sgr_loop :: "nat list \<Rightarrow> nat \<Rightarrow> StyleState \<Rightarrow> StyleState" where
  "sgr_loop codes i state =
     (if i < length codes then
        (case sgr_code codes i state of
           (i', state') \<Rightarrow> sgr_loop codes (Suc i') state')
      else state)"
  by pat_completeness auto
termination
  apply (relation "measure (\<lambda>(codes, i, state). length codes - i)")
   apply simp
  subgoal for codes i state i' state'
    using sgr_code_index [of i codes state] by (cases "sgr_code codes i state") auto
  done

subsection \<open>The converter\<close>

text \<open>
  The block that appends a piece of literal text to the result; the source has it
  twice, for the text before a match and for the text after the last one.
\<close>

definition emit :: "StyleState \<Rightarrow> string \<Rightarrow> string" where
  "emit state s =
     (if s \<noteq> [] then
        (if hasStyle state then openSpan state @ escapeHtml s @ ''</span>''
         else escapeHtml s)
      else [])"

record scan =
  state :: StyleState
  result :: string
  lastIndex :: nat

text \<open>The body of the \<^verbatim>\<open>for (const match of ...)\<close> loop.\<close>

definition for_body :: "string \<Rightarrow> RegExpMatch \<Rightarrow> scan \<Rightarrow> scan" where
  "for_body text match s =
     (let before_text = slice (lastIndex s) (index match) text;
          result' = result s @ emit (state s) before_text;
          codes = parse_codes (group1 match);
          state' = sgr_loop codes 0 (state s)
      in \<lparr>state = state', result = result',
          lastIndex = index match + length (whole match)\<rparr>)"

definition ansiToHtml :: "string \<Rightarrow> string" where
  "ansiToHtml text =
     (let s = fold (for_body text) (matchAll text)
                \<lparr>state = empty_state, result = [], lastIndex = 0\<rparr>;
          remaining = drop (lastIndex s) text
      in result s @ emit (state s) remaining)"

definition ansiLinesToHtml :: "string list \<Rightarrow> string" where
  "ansiLinesToHtml lines = join ''<br>'' (map ansiToHtml lines)"

declare toString.simps [simp del]
declare matchAll_from.simps [simp del]
declare sgr_loop.simps [simp del]

subsection \<open>The loops with the while combinator\<close>

text \<open>
  The loops of the converter once more, written with the while combinator, whose
  value is \<open>None\<close> for a loop that does not end: the loop over the codes, the scan
  of \<^verbatim>\<open>matchAll\<close> over the positions of the text and, with them, the loop over the
  matches and the converter. That they end, with the values of the recursive
  functions above, is proved below (\<open>ansiToHtml_opt_total\<close>).
\<close>

definition sgr_while :: "nat list \<Rightarrow> StyleState \<Rightarrow> StyleState option" where
  "sgr_while codes state0 =
     map_option snd
       (while_option (\<lambda>(i, state). i < length codes)
          (\<lambda>(i, state). case sgr_code codes i state of (i', state') \<Rightarrow> (Suc i', state'))
          (0, state0))"

definition matchAll_while :: "string \<Rightarrow> RegExpMatch list option" where
  "matchAll_while text =
     map_option snd
       (while_option (\<lambda>(pos, found). pos < length text)
          (\<lambda>(pos, found).
             case exec_at (drop pos text) of
               Some ps \<Rightarrow>
                 (pos + length (ESC # CHR ''['' # ps @ ''m''),
                  found @ [\<lparr>index = pos, whole = ESC # CHR ''['' # ps @ ''m'', group1 = ps\<rparr>])
             | None \<Rightarrow> (Suc pos, found))
          (0, []))"

fun for_each :: "('a \<Rightarrow> 'b \<Rightarrow> 'b option) \<Rightarrow> 'a list \<Rightarrow> 'b \<Rightarrow> 'b option" where
  "for_each body [] s = Some s"
| "for_each body (x # xs) s = (case body x s of None \<Rightarrow> None | Some s' \<Rightarrow> for_each body xs s')"

definition for_body_opt :: "string \<Rightarrow> RegExpMatch \<Rightarrow> scan \<Rightarrow> scan option" where
  "for_body_opt text match s =
     (let before_text = slice (lastIndex s) (index match) text;
          result' = result s @ emit (state s) before_text;
          codes = parse_codes (group1 match)
      in case sgr_while codes (state s) of
           None \<Rightarrow> None
         | Some state' \<Rightarrow>
             Some \<lparr>state = state', result = result',
                   lastIndex = index match + length (whole match)\<rparr>)"

definition ansiToHtml_opt :: "string \<Rightarrow> string option" where
  "ansiToHtml_opt text =
     (case matchAll_while text of
        None \<Rightarrow> None
      | Some matches \<Rightarrow>
          (case for_each (for_body_opt text) matches
                  \<lparr>state = empty_state, result = [], lastIndex = 0\<rparr> of
             None \<Rightarrow> None
           | Some s \<Rightarrow> Some (result s @ emit (state s) (drop (lastIndex s) text))))"

subsection \<open>A structural view of the scan\<close>

text \<open>
  The pieces of literal text that a scan emits, each with the style state that is
  current when it is emitted, computed by recursion on the text: \<open>lit\<close> is the
  literal text collected since the last match. These definitions exist for the
  proofs; \<open>scan_segments\<close> shows that the loop over the matches, which works with
  indices into the text, emits exactly these pieces.
\<close>

fun segments :: "StyleState \<Rightarrow> string \<Rightarrow> string \<Rightarrow> (StyleState \<times> string) list" where
  "segments st lit [] = [(st, lit)]"
| "segments st lit (c # cs) =
     (case exec_at (c # cs) of
        Some ps \<Rightarrow>
          (st, lit) # segments (sgr_loop (parse_codes ps) 0 st) [] (drop (length ps + 2) cs)
      | None \<Rightarrow> segments st (lit @ [c]) cs)"

definition render :: "(StyleState \<times> string) list \<Rightarrow> string" where
  "render segs = concat (map (\<lambda>(st, t). emit st t) segs)"

text \<open>What the converter returns once the loop over the matches has ended in \<open>s\<close>.\<close>

definition finish :: "string \<Rightarrow> scan \<Rightarrow> string" where
  "finish text s = result s @ emit (state s) (drop (lastIndex s) text)"

text \<open>The decimal digits, of which the tokens between the semicolons consist.\<close>

definition is_digit :: "char \<Rightarrow> bool" where
  "is_digit c = (c \<in> set ''0123456789'')"

subsection \<open>Specification-side notions\<close>

text \<open>
  The cube formula and the zero-padded two-digit hexadecimal rendering, written
  after the specification's words, to be compared with what the source computes.
\<close>

definition spec_cube_component :: "nat \<Rightarrow> nat" where
  "spec_cube_component n = (if n = 0 then 0 else 55 + 40 * n)"

definition spec_hex2 :: "nat \<Rightarrow> string" where
  "spec_hex2 v = [digit_char (v div 16), digit_char (v mod 16)]"

text \<open>The codes that the mutation table of the specification lists.\<close>

definition listed_code :: "nat \<Rightarrow> bool" where
  "listed_code c =
     (c \<in> {0, 1, 2, 3, 4, 22, 23, 24, 38, 39, 48, 49}
      \<or> (30 \<le> c \<and> c \<le> 37) \<or> (40 \<le> c \<and> c \<le> 47)
      \<or> (90 \<le> c \<and> c \<le> 97) \<or> (100 \<le> c \<and> c \<le> 107))"

text \<open>
  An extended-colour selector (38 or 48) at index \<open>i\<close> that is malformed in the
  specification's words: the parameter after it is missing or is neither 5 nor 2,
  or the index, or one of the three channels, is missing.
\<close>

definition malformed_selector :: "nat list \<Rightarrow> nat \<Rightarrow> bool" where
  "malformed_selector codes i =
     (i < length codes \<and> (codes ! i = 38 \<or> codes ! i = 48)
      \<and> (case at codes (i + 1) of
            None \<Rightarrow> True
          | Some mode \<Rightarrow>
              if mode = 5 then at codes (i + 2) = None
              else if mode = 2 then
                at codes (i + 2) = None \<or> at codes (i + 3) = None \<or> at codes (i + 4) = None
              else True))"

text \<open>The numbers that a double holds exactly and prints digit by digit.\<close>

definition safe_integer :: "nat \<Rightarrow> bool" where
  "safe_integer n = (n < 2 ^ 53)"

text \<open>The colour value \<open>rgb(r,g,b)\<close> with the three channels written in decimal.\<close>

definition spec_rgb :: "nat \<Rightarrow> nat \<Rightarrow> nat \<Rightarrow> string" where
  "spec_rgb r g b = ''rgb('' @ toString 10 r @ '','' @ toString 10 g @ '','' @ toString 10 b @ '')''"

text \<open>
  Entity-escaped text: every \<open>&\<close> starts one of the entities \<open>&amp;\<close>, \<open>&lt;\<close> and
  \<open>&gt;\<close>.
\<close>

fun amp_escaped :: "string \<Rightarrow> bool" where
  "amp_escaped [] = True"
| "amp_escaped (c # cs) =
     ((c \<noteq> CHR ''&'' \<or> prefix ''amp;'' cs \<or> prefix ''lt;'' cs \<or> prefix ''gt;'' cs)
      \<and> amp_escaped cs)"

text \<open>What the three replacements of \<open>escapeHtml\<close> do to one character.\<close>

definition escape_char :: "char \<Rightarrow> string" where
  "escape_char c =
     (if c = CHR ''&'' then ''&amp;''
      else if c = CHR ''<'' then ''&lt;''
      else if c = CHR ''>'' then ''&gt;''
      else [c])"

text \<open>
  A string that can stand inside the style attribute of a span, and the style
  states whose colours are such strings.
\<close>

definition safe :: "string \<Rightarrow> bool" where
  "safe s = (CHR ''<'' \<notin> set s \<and> CHR ''>'' \<notin> set s \<and> CHR 0x22 \<notin> set s)"

definition safe_opt :: "string option \<Rightarrow> bool" where
  "safe_opt v = (case v of None \<Rightarrow> True | Some s \<Rightarrow> safe s)"

definition clean :: "StyleState \<Rightarrow> bool" where
  "clean st = (safe_opt (fg st) \<and> safe_opt (bg st))"

text \<open>
  Output with balanced, unnested style scopes: a sequence of pieces, each either
  text without angle brackets or an opening span marker with at least one
  declaration, non-empty text without angle brackets, and the closing marker right
  after it.
\<close>

inductive scoped :: "string \<Rightarrow> bool" where
  scoped_end: "scoped []"
| scoped_plain:
    "CHR ''<'' \<notin> set t \<Longrightarrow> CHR ''>'' \<notin> set t \<Longrightarrow> scoped rest \<Longrightarrow> scoped (t @ rest)"
| scoped_span:
    \<open>decls \<noteq> [] \<Longrightarrow> \<forall>d \<in> set decls. d \<noteq> [] \<and> safe d \<Longrightarrow>
     t \<noteq> [] \<Longrightarrow> CHR ''<'' \<notin> set t \<Longrightarrow> CHR ''>'' \<notin> set t \<Longrightarrow> scoped rest \<Longrightarrow>
     scoped (''<span style="'' @ join '';'' decls @ ''">'' @ t @ ''</span>'' @ rest)\<close>

text \<open>The number of places at which \<open>pat\<close> occurs in a string.\<close>

fun count_sub :: "string \<Rightarrow> string \<Rightarrow> nat" where
  "count_sub pat [] = 0"
| "count_sub pat (c # cs) = (if prefix pat (c # cs) then 1 else 0) + count_sub pat cs"

section \<open>Properties\<close>

subsection \<open>Rendering of numbers\<close>

lemma padStart_hex2:
  assumes "v < 256"
  shows "padStart 2 (CHR ''0'') (toString 16 v) = spec_hex2 v"
proof (cases "v < 16")
  case True
  then show ?thesis
    by (simp add: toString.simps [of 16 v] padStart_def spec_hex2_def digit_char_def)
next
  case False
  with assms have small: "v div 16 < 16"
    by simp
  have "toString 16 v = toString 16 (v div 16) @ [digit_char (v mod 16)]"
    using False by (simp add: toString.simps [of 16 v])
  also have "toString 16 (v div 16) = [digit_char (v div 16)]"
    using small by (simp add: toString.simps [of 16 "v div 16"])
  finally show ?thesis
    by (simp add: padStart_def spec_hex2_def)
qed

lemma toHex_cube:
  assumes "c < 6"
  shows "toHex c = spec_hex2 (spec_cube_component c)"
proof -
  have "(if c = 0 then 0 else 55 + c * 40) < 256"
    using assms by simp
  then show ?thesis
    unfolding toHex_def spec_cube_component_def
    by (simp add: padStart_hex2 mult.commute)
qed

subsection \<open>Digits, parsing and the escape pattern\<close>

lemma small_digit_cases:
  assumes "d < (10::nat)"
  shows "d = 0 \<or> d = 1 \<or> d = 2 \<or> d = 3 \<or> d = 4 \<or> d = 5 \<or> d = 6 \<or> d = 7 \<or> d = 8 \<or> d = 9"
  using assms by arith

lemma digit_char_is_digit: "d < 10 \<Longrightarrow> is_digit (digit_char d)"
  using small_digit_cases [of d] by (auto simp: digit_char_def is_digit_def)

lemma digit_val_digit_char: "d < 10 \<Longrightarrow> digit_val (digit_char d) = d"
  using small_digit_cases [of d] by (auto simp: digit_char_def digit_val_def)

lemma is_digit_is_param: "is_digit c \<Longrightarrow> is_param c"
  by (auto simp: is_digit_def is_param_def)

lemma is_digit_not_semicolon: "is_digit c \<Longrightarrow> c \<noteq> CHR '';''"
  by (auto simp: is_digit_def)

lemma toString_10_digits: "c \<in> set (toString 10 n) \<Longrightarrow> is_digit c"
proof (induction "10::nat" n arbitrary: c rule: toString.induct)
  case (1 n)
  show ?case
  proof (cases "n < 10")
    case True
    with "1.prems" show ?thesis
      by (simp add: toString.simps [of 10 n] digit_char_is_digit)
  next
    case False
    with "1.prems" have "c \<in> set (toString 10 (n div 10)) \<or> c = digit_char (n mod 10)"
      by (auto simp: toString.simps [of 10 n])
    then show ?thesis
      using "1.hyps" False by (auto simp: digit_char_is_digit)
  qed
qed

lemma toString_not_Nil: "toString radix n \<noteq> []"
  by (subst toString.simps) simp

lemma parseInt_snoc: "parseInt (s @ [c]) = parseInt s * 10 + digit_val c"
  by (simp add: parseInt_def)

lemma parseInt_toString: "parseInt (toString 10 n) = n"
proof (induction "10::nat" n rule: toString.induct)
  case (1 n)
  show ?case
  proof (cases "n < 10")
    case True
    then show ?thesis
      by (simp add: toString.simps [of 10 n] parseInt_def digit_val_digit_char)
  next
    case False
    then have "parseInt (toString 10 n) = parseInt (toString 10 (n div 10)) * 10 + n mod 10"
      by (simp add: toString.simps [of 10 n] parseInt_snoc digit_val_digit_char)
    also have "\<dots> = n"
      using "1.hyps" False by simp
    finally show ?thesis .
  qed
qed

lemma split_no_sep: "sep \<notin> set s \<Longrightarrow> split sep s = [s]"
  by (induction s) auto

lemma split_append_sep: "sep \<notin> set a \<Longrightarrow> split sep (a @ sep # b) = a # split sep b"
  by (induction a) auto

lemma parse_codes_single: "parse_codes (toString 10 n) = [n]"
proof -
  have "CHR '';'' \<notin> set (toString 10 n)"
    using toString_10_digits is_digit_not_semicolon by blast
  then show ?thesis
    by (simp add: parse_codes_def split_no_sep toString_not_Nil parseInt_toString)
qed

lemma parse_codes_cons:
  "parse_codes (toString 10 n @ CHR '';'' # rest) = n # parse_codes rest"
proof -
  have "CHR '';'' \<notin> set (toString 10 n)"
    using toString_10_digits is_digit_not_semicolon by blast
  then show ?thesis
    by (simp add: parse_codes_def split_append_sep toString_not_Nil parseInt_toString)
qed

lemma exec_at_match:
  assumes "\<And>c. c \<in> set ps \<Longrightarrow> is_param c"
  shows "exec_at (ESC # CHR ''['' # ps @ CHR ''m'' # t) = Some ps"
proof -
  have m: "\<not> is_param (CHR ''m'')"
    by (simp add: is_param_def)
  have "takeWhile is_param (ps @ CHR ''m'' # t) = ps"
    using assms m by (simp add: takeWhile_append2)
  moreover have "dropWhile is_param (ps @ CHR ''m'' # t) = CHR ''m'' # t"
    using assms m by (simp add: dropWhile_append2)
  ultimately show ?thesis
    by (simp add: exec_at_def)
qed

lemma exec_at_no_ESC: "c \<noteq> ESC \<Longrightarrow> exec_at (c # cs) = None"
  by (simp add: exec_at_def split: list.splits)

lemma exec_at_unterminated:
  assumes "\<And>c. c \<in> set ps \<Longrightarrow> is_param c"
    and "t = [] \<or> (hd t \<noteq> CHR ''m'' \<and> \<not> is_param (hd t))"
  shows "exec_at (ESC # CHR ''['' # ps @ t) = None"
proof (cases t)
  case Nil
  have run: "dropWhile is_param ps = []"
    using assms(1) by simp
  show ?thesis
    by (simp add: exec_at_def Nil run)
next
  case (Cons x xs)
  with assms(2) have x: "x \<noteq> CHR ''m''" "\<not> is_param x"
    by auto
  then have "dropWhile is_param (ps @ t) = x # xs"
    using assms(1) Cons by (simp add: dropWhile_append2)
  then show ?thesis
    using x by (simp add: exec_at_def)
qed

lemma exec_at_Some:
  assumes "exec_at s = Some ps"
  shows "\<exists>rest. s = ESC # CHR ''['' # ps @ CHR ''m'' # rest" and "\<forall>c \<in> set ps. is_param c"
proof -
  from assms obtain body where s: "s = ESC # CHR ''['' # body"
    by (auto simp: exec_at_def split: list.splits if_splits)
  with assms obtain rest where tail: "dropWhile is_param body = CHR ''m'' # rest"
    and ps: "ps = takeWhile is_param body"
    by (auto simp: exec_at_def split: list.splits if_splits)
  have "body = takeWhile is_param body @ dropWhile is_param body"
    by simp
  then have "body = ps @ CHR ''m'' # rest"
    by (simp only: tail ps)
  with s show "\<exists>rest. s = ESC # CHR ''['' # ps @ CHR ''m'' # rest"
    by blast
  show "\<forall>c \<in> set ps. is_param c"
    unfolding ps by (auto dest: set_takeWhileD)
qed

lemma split_tokens:
  assumes "t \<in> set (split sep s)" and "c \<in> set t"
  shows "c \<in> set s \<and> c \<noteq> sep"
  using assms
proof (induction s arbitrary: t)
  case Nil
  then show ?case by simp
next
  case (Cons x xs)
  show ?case
  proof (cases "x = sep")
    case True
    with Cons.prems have "t \<in> set (split sep xs)"
      by auto
    then show ?thesis
      using Cons.IH Cons.prems(2) by auto
  next
    case False
    obtain u us where u: "split sep xs = u # us"
      by (cases "split sep xs"; cases xs) (auto split: if_splits list.splits)
    with False Cons.prems(1) have "t = x # u \<or> t \<in> set us"
      by simp
    then show ?thesis
    proof
      assume "t = x # u"
      with Cons.prems(2) have "c = x \<or> c \<in> set u"
        by simp
      then show ?thesis
        using False Cons.IH [of u] u by auto
    next
      assume "t \<in> set us"
      then show ?thesis
        using Cons.IH [of t] u Cons.prems(2) by auto
    qed
  qed
qed

lemma tokens_are_digits:
  assumes "\<forall>c \<in> set ps. is_param c" and "t \<in> set (split (CHR '';'') ps)" and "c \<in> set t"
  shows "is_digit c"
proof -
  have "c \<in> set ps \<and> c \<noteq> CHR '';''"
    using assms(2,3) by (rule split_tokens)
  then have "is_param c" and "c \<noteq> CHR '';''"
    using assms(1) by simp_all
  then show ?thesis
    by (auto simp: is_param_def is_digit_def)
qed

subsection \<open>The loop over the matches emits the segments\<close>

lemma matchAll_from_bound: "length (matchAll_from inp pos) \<le> length inp - pos"
proof (induction inp pos rule: matchAll_from.induct)
  case (1 inp pos)
  show ?case
  proof (cases "pos < length inp")
    case False
    then show ?thesis
      by (simp add: matchAll_from.simps [of inp pos])
  next
    case True
    show ?thesis
    proof (cases "exec_at (drop pos inp)")
      case None
      then show ?thesis
        using True "1.IH"(1) [OF True None] by (simp add: matchAll_from.simps [of inp pos])
    next
      case (Some ps)
      then show ?thesis
        using True "1.IH"(2) [OF True Some] by (simp add: matchAll_from.simps [of inp pos])
    qed
  qed
qed

lemma slice_same: "slice a a s = []"
  by (simp add: slice_def)

lemma slice_Suc:
  assumes "a \<le> p" and "p < length s"
  shows "slice a (Suc p) s = slice a p s @ [s ! p]"
proof -
  have "take (Suc (p - a)) (drop a s) = take (p - a) (drop a s) @ [drop a s ! (p - a)]"
    using assms by (simp add: take_Suc_conv_app_nth)
  moreover have "Suc p - a = Suc (p - a)"
    using assms by simp
  ultimately show ?thesis
    using assms by (simp add: slice_def)
qed

lemma for_body_step:
  "for_body inp \<lparr>index = pos, whole = w, group1 = ps\<rparr>
       \<lparr>state = st, result = res, lastIndex = li\<rparr>
     = \<lparr>state = sgr_loop (parse_codes ps) 0 st,
        result = res @ emit st (slice li pos inp),
        lastIndex = pos + length w\<rparr>"
  by (simp add: for_body_def)

lemma scan_segments:
  "li \<le> pos \<Longrightarrow>
   finish inp (fold (for_body inp) (matchAll_from inp pos)
                  \<lparr>state = st, result = res, lastIndex = li\<rparr>)
     = res @ render (segments st (slice li pos inp) (drop pos inp))"
proof (induction inp pos arbitrary: st res li rule: matchAll_from.induct)
  case (1 inp pos)
  show ?case
  proof (cases "pos < length inp")
    case False
    then have "slice li pos inp = drop li inp"
      by (simp add: slice_def)
    with False show ?thesis
      by (simp add: matchAll_from.simps [of inp pos] finish_def render_def)
  next
    case True
    then have split: "drop pos inp = inp ! pos # drop (Suc pos) inp"
      by (simp add: Cons_nth_drop_Suc)
    show ?thesis
    proof (cases "exec_at (drop pos inp)")
      case None
      have "finish inp (fold (for_body inp) (matchAll_from inp (Suc pos))
                  \<lparr>state = st, result = res, lastIndex = li\<rparr>)
             = res @ render (segments st (slice li (Suc pos) inp) (drop (Suc pos) inp))"
        using "1.IH"(1) [OF True None, of li st res] "1.prems" by simp
      moreover have "segments st (slice li pos inp) (drop pos inp)
                       = segments st (slice li (Suc pos) inp) (drop (Suc pos) inp)"
        using None True "1.prems" by (simp add: split [symmetric] slice_Suc) (simp add: split)
      ultimately show ?thesis
        using True None by (simp add: matchAll_from.simps [of inp pos])
    next
      case (Some ps)
      let ?pos' = "pos + length (ESC # CHR ''['' # ps @ ''m'')"
      let ?st' = "sgr_loop (parse_codes ps) 0 st"
      let ?res' = "res @ emit st (slice li pos inp)"
      have "finish inp (fold (for_body inp) (matchAll_from inp ?pos')
                  \<lparr>state = ?st', result = ?res', lastIndex = ?pos'\<rparr>)
             = ?res' @ render (segments ?st' (slice ?pos' ?pos' inp) (drop ?pos' inp))"
        using "1.IH"(2) [OF True Some, of ?pos' ?st' ?res'] by simp
      moreover have "segments st (slice li pos inp) (drop pos inp)
                       = (st, slice li pos inp) # segments ?st' [] (drop ?pos' inp)"
        using Some by (simp add: split [symmetric]) (simp add: split add.commute)
      ultimately show ?thesis
        using True Some
        by (simp add: matchAll_from.simps [of inp pos] for_body_step slice_same render_def)
    qed
  qed
qed

lemma ansiToHtml_segments: "ansiToHtml inp = render (segments empty_state [] inp)"
  using scan_segments [of 0 0 inp empty_state "[]"]
  by (simp add: ansiToHtml_def matchAll_def finish_def slice_same Let_def)


lemma segments_skip:
  "ESC \<notin> set pre \<Longrightarrow> segments st lit (pre @ rest) = segments st (lit @ pre) rest"
  by (induction pre arbitrary: lit) (auto simp: exec_at_no_ESC)

lemma segments_plain: "ESC \<notin> set s \<Longrightarrow> segments st lit s = [(st, lit @ s)]"
  using segments_skip [of s st lit "[]"] by simp

lemma segments_match:
  assumes "\<And>c. c \<in> set ps \<Longrightarrow> is_param c"
  shows "segments st lit (ESC # CHR ''['' # ps @ CHR ''m'' # t)
           = (st, lit) # segments (sgr_loop (parse_codes ps) 0 st) [] t"
proof -
  have "exec_at (ESC # CHR ''['' # ps @ CHR ''m'' # t) = Some ps"
    by (rule exec_at_match) (rule assms)
  then show ?thesis
    by simp
qed

subsection \<open>Emitting text and interpreting single codes\<close>



lemma hasStyle_empty: "\<not> hasStyle empty_state"
  by (simp add: hasStyle_def empty_state_def truthy_str_def truthy_bool_def)

lemma emit_empty_state: "emit empty_state s = escapeHtml s"
  by (simp add: emit_def hasStyle_empty escapeHtml_def replaceAll_def)

lemma emit_Nil: "emit st [] = []"
  by (simp add: emit_def)

lemma render_Cons: "render ((st, t) # segs) = emit st t @ render segs"
  by (simp add: render_def)

lemma toString_is_param: "c \<in> set (toString 10 n) \<Longrightarrow> is_param c"
  by (simp add: toString_10_digits is_digit_is_param)

lemma sgr_code_unlisted:
  "\<not> listed_code (codes ! i) \<Longrightarrow> sgr_code codes i st = (i, st)"
  by (auto simp: sgr_code_def listed_code_def Let_def)

lemma sgr_loop_single_unlisted:
  assumes "\<not> listed_code c"
  shows "sgr_loop [c] 0 st = st"
proof -
  have "sgr_code [c] 0 st = (0, st)"
    using assms by (simp add: sgr_code_unlisted)
  then show ?thesis
    by (simp add: sgr_loop.simps [of "[c]" 0] sgr_loop.simps [of "[c]" "Suc 0"])
qed

lemma is_param_not_ESC: "is_param c \<Longrightarrow> c \<noteq> ESC"
  by (auto simp: is_param_def)

lemma malformed_selector_iff:
  "malformed_selector codes i \<longleftrightarrow>
     i < length codes \<and> (codes ! i = 38 \<or> codes ! i = 48)
     \<and> \<not> (at codes (i + 1) = Some 5 \<and> at codes (i + 2) \<noteq> None)
     \<and> \<not> (at codes (i + 1) = Some 2 \<and> at codes (i + 4) \<noteq> None)"
  by (auto simp: malformed_selector_def at_def split: option.splits if_splits)

lemma sgr_code_malformed:
  assumes "codes ! i = 38 \<or> codes ! i = 48"
    and "(at codes (i + 1) = Some 5 \<and> at codes (i + 2) \<noteq> None) = False"
    and "(at codes (i + 1) = Some 2 \<and> at codes (i + 4) \<noteq> None) = False"
  shows "sgr_code codes i st = (i, st)"
proof (cases "codes ! i = 38")
  case True
  then show ?thesis
    unfolding sgr_code_def Let_def by (simp only: assms(2,3)) simp
next
  case False
  with assms(1) have "codes ! i = 48"
    by simp
  then show ?thesis
    unfolding sgr_code_def Let_def by (simp only: assms(2,3)) simp
qed

lemma sgr_code_truecolor_fg:
  assumes "codes ! i = 38" and "at codes (i + 1) = Some 2" and "at codes (i + 4) \<noteq> None"
  shows "sgr_code codes i st
           = (i + 4, st\<lparr>fg := Some (spec_rgb (codes ! (i + 2)) (codes ! (i + 3)) (codes ! (i + 4)))\<rparr>)"
  using assms by (simp add: sgr_code_def Let_def spec_rgb_def)

lemma sgr_code_truecolor_bg:
  assumes "codes ! i = 48" and "at codes (i + 1) = Some 2" and "at codes (i + 4) \<noteq> None"
  shows "sgr_code codes i st
           = (i + 4, st\<lparr>bg := Some (spec_rgb (codes ! (i + 2)) (codes ! (i + 3)) (codes ! (i + 4)))\<rparr>)"
  using assms by (simp add: sgr_code_def Let_def spec_rgb_def)

lemma parse_codes_truecolor:
  "parse_codes (toString 10 sel @ '';2;'' @ toString 10 r @ '';'' @ toString 10 g @ '';'' @ toString 10 b)
     = [sel, 2, r, g, b]"
proof -
  have two: "toString 10 2 = ''2''"
    by code_simp
  have "parse_codes (toString 10 sel @ CHR '';'' # toString 10 2 @ CHR '';'' # toString 10 r
           @ CHR '';'' # toString 10 g @ CHR '';'' # toString 10 b) = [sel, 2, r, g, b]"
    by (simp only: parse_codes_cons parse_codes_single)
  then show ?thesis
    by (simp add: two)
qed

lemma truecolor_params:
  assumes "c \<in> set (toString 10 sel @ '';2;'' @ toString 10 r @ '';'' @ toString 10 g @ '';'' @ toString 10 b)"
  shows "is_param c"
proof -
  have "is_param (CHR '';'')" "is_param (CHR ''2'')"
    by (simp_all add: is_param_def)
  with assms show ?thesis
    by (auto dest: toString_is_param)
qed

lemma sgr_loop_truecolor_fg:
  "sgr_loop [38, 2, r, g, b] 0 st = st\<lparr>fg := Some (spec_rgb r g b)\<rparr>"
proof -
  have "sgr_code [38, 2, r, g, b] 0 st = (0 + 4, st\<lparr>fg := Some (spec_rgb r g b)\<rparr>)"
    using sgr_code_truecolor_fg [of "[38, 2, r, g, b]" 0 st] by (simp add: at_def)
  then show ?thesis
    by (simp add: sgr_loop.simps [of _ 0] sgr_loop.simps [of _ 5])
qed

lemma sgr_loop_truecolor_bg:
  "sgr_loop [48, 2, r, g, b] 0 st = st\<lparr>bg := Some (spec_rgb r g b)\<rparr>"
proof -
  have "sgr_code [48, 2, r, g, b] 0 st = (0 + 4, st\<lparr>bg := Some (spec_rgb r g b)\<rparr>)"
    using sgr_code_truecolor_bg [of "[48, 2, r, g, b]" 0 st] by (simp add: at_def)
  then show ?thesis
    by (simp add: sgr_loop.simps [of _ 0] sgr_loop.simps [of _ 5])
qed

lemma spec_rgb_not_Nil: "spec_rgb r g b \<noteq> []"
  by (simp add: spec_rgb_def)

lemma emit_fg_only:
  \<open>emit (empty_state\<lparr>fg := Some (spec_rgb r g b)\<rparr>) ''x''
     = ''<span style="color:'' @ spec_rgb r g b @ ''">x</span>''\<close>
  by (simp add: emit_def hasStyle_def openSpan_def styles_def empty_state_def truthy_str_def
        truthy_bool_def spec_rgb_not_Nil escapeHtml_def replaceAll_def)

lemma emit_bg_only:
  \<open>emit (empty_state\<lparr>bg := Some (spec_rgb r g b)\<rparr>) ''x''
     = ''<span style="background-color:'' @ spec_rgb r g b @ ''">x</span>''\<close>
  by (simp add: emit_def hasStyle_def openSpan_def styles_def empty_state_def truthy_str_def
        truthy_bool_def spec_rgb_not_Nil escapeHtml_def replaceAll_def)

lemma ansiToHtml_truecolor:
  "ansiToHtml (ESC # CHR ''['' # (toString 10 sel @ '';2;'' @ toString 10 r @ '';''
                   @ toString 10 g @ '';'' @ toString 10 b) @ CHR ''m'' # ''x'')
     = emit (sgr_loop [sel, 2, r, g, b] 0 empty_state) ''x''"
proof -
  let ?ps = "toString 10 sel @ '';2;'' @ toString 10 r @ '';'' @ toString 10 g @ '';'' @ toString 10 b"
  have "segments empty_state [] (ESC # CHR ''['' # ?ps @ CHR ''m'' # ''x'')
          = (empty_state, []) # segments (sgr_loop (parse_codes ?ps) 0 empty_state) [] ''x''"
    by (rule segments_match) (rule truecolor_params)
  also have "segments (sgr_loop (parse_codes ?ps) 0 empty_state) [] ''x''
               = [(sgr_loop (parse_codes ?ps) 0 empty_state, ''x'')]"
    using segments_plain [of "''x''" _ "[]"] by (simp del: segments.simps)
  finally show ?thesis
    by (simp only: ansiToHtml_segments render_Cons emit_Nil parse_codes_truecolor)
       (simp add: render_def)
qed

subsection \<open>Escaping\<close>

lemma replaceAll_Cons:
  "replaceAll c r (x # xs) = (if x = c then r else [x]) @ replaceAll c r xs"
  by (simp add: replaceAll_def)

lemma replaceAll_append: "replaceAll c r (xs @ ys) = replaceAll c r xs @ replaceAll c r ys"
  by (simp add: replaceAll_def)

lemma escapeHtml_Nil: "escapeHtml [] = []"
  by (simp add: escapeHtml_def replaceAll_def)

lemma escapeHtml_Cons: "escapeHtml (c # cs) = escape_char c @ escapeHtml cs"
  by (simp add: escapeHtml_def escape_char_def replaceAll_Cons replaceAll_append)
     (simp add: replaceAll_def)

lemma escapeHtml_no_lt: "CHR ''<'' \<notin> set (escapeHtml s)"
  by (induction s) (simp_all add: escapeHtml_Nil escapeHtml_Cons escape_char_def)

lemma escapeHtml_no_gt: "CHR ''>'' \<notin> set (escapeHtml s)"
  by (induction s) (simp_all add: escapeHtml_Nil escapeHtml_Cons escape_char_def)

lemma escapeHtml_amp: "amp_escaped (escapeHtml s)"
  by (induction s) (simp_all add: escapeHtml_Nil escapeHtml_Cons escape_char_def)

lemma escapeHtml_not_Nil: "s \<noteq> [] \<Longrightarrow> escapeHtml s \<noteq> []"
  by (cases s) (simp_all add: escapeHtml_Cons escape_char_def)

lemma render_emit:
  "render segs = concat (map (\<lambda>(st, t).
       if t = [] then []
       else if hasStyle st then openSpan st @ escapeHtml t @ ''</span>''
       else escapeHtml t) segs)"
  by (induction segs) (auto simp: render_def emit_def)

subsection \<open>Colours stay inside the style attribute\<close>

lemma safe_opt_None: "safe_opt None"
  by (simp add: safe_opt_def)

lemma safe_alnum:
  assumes "c \<in> set ''0123456789abcdefghijklmnopqrstuvwxyz''"
  shows "c \<noteq> CHR ''<'' \<and> c \<noteq> CHR ''>'' \<and> c \<noteq> CHR 0x22"
  using assms by auto

lemma digit_char_alnum: "d < 36 \<Longrightarrow> digit_char d \<in> set ''0123456789abcdefghijklmnopqrstuvwxyz''"
  unfolding digit_char_def by (rule nth_mem) simp

lemma toString_alnum:
  assumes "2 \<le> radix" and "radix \<le> 36" and "c \<in> set (toString radix n)"
  shows "c \<in> set ''0123456789abcdefghijklmnopqrstuvwxyz''"
  using assms
proof (induction radix n rule: toString.induct)
  case (1 radix n)
  show ?case
  proof (cases "n < radix")
    case True
    with "1.prems" have "c = digit_char n" and "n < 36"
      by (simp_all add: toString.simps [of radix n])
    then show ?thesis
      by (simp only: digit_char_alnum)
  next
    case False
    with "1.prems" have "c \<in> set (toString radix (n div radix)) \<or> c = digit_char (n mod radix)"
      by (auto simp: toString.simps [of radix n])
    moreover have "n mod radix < radix"
      using "1.prems"(1) by simp
    then have "digit_char (n mod radix) \<in> set ''0123456789abcdefghijklmnopqrstuvwxyz''"
      using "1.prems"(2) by (intro digit_char_alnum) simp
    moreover have "c \<in> set ''0123456789abcdefghijklmnopqrstuvwxyz''"
      if "c \<in> set (toString radix (n div radix))"
      using "1.IH" that False "1.prems"(1,2) by simp
    ultimately show ?thesis
      by blast
  qed
qed

lemma safe_toString: "2 \<le> radix \<Longrightarrow> radix \<le> 36 \<Longrightarrow> safe (toString radix n)"
  unfolding safe_def using toString_alnum safe_alnum by blast

lemma safe_append: "safe (a @ b) = (safe a \<and> safe b)"
  by (auto simp: safe_def)

lemma safe_Cons: "safe (c # s) = (c \<noteq> CHR ''<'' \<and> c \<noteq> CHR ''>'' \<and> c \<noteq> CHR 0x22 \<and> safe s)"
  by (auto simp: safe_def)

lemma safe_Nil: "safe []"
  by (simp add: safe_def)

lemma safe_padStart: "safe s \<Longrightarrow> safe (padStart n (CHR ''0'') s)"
  by (simp add: padStart_def safe_def)

lemma safe_palette: "safe_opt (ANSI_COLORS_16 k)"
proof (cases "ANSI_COLORS_16 k")
  case None
  then show ?thesis
    by (simp add: safe_opt_def)
next
  case (Some s)
  from Some [unfolded ANSI_COLORS_16_def]
  have "(k, s) \<in> set
     [(0, ''#000000''), (1, ''#cd0000''), (2, ''#00cd00''), (3, ''#cdcd00''),
      (4, ''#0000ee''), (5, ''#cd00cd''), (6, ''#00cdcd''), (7, ''#e5e5e5''),
      (8, ''#7f7f7f''), (9, ''#ff0000''), (10, ''#00ff00''), (11, ''#ffff00''),
      (12, ''#5c5cff''), (13, ''#ff00ff''), (14, ''#00ffff''), (15, ''#ffffff'')]"
    by (rule map_of_SomeD)
  then have "safe s"
    by (auto simp: safe_def)
  with Some show ?thesis
    by (simp add: safe_opt_def)
qed

lemma safe_toHex: "safe (toHex c)"
  by (simp add: toHex_def safe_padStart safe_toString)

lemma safe_ansi256ToHex: "safe (ansi256ToHex code)"
proof -
  have palette: "safe (or_else (ANSI_COLORS_16 code) ''#ffffff'')"
    using safe_palette [of code]
    by (auto simp: or_else_def safe_opt_def safe_def split: option.splits)
  show ?thesis
    unfolding ansi256ToHex_def Let_def
    by (simp add: palette safe_append safe_Cons safe_Nil safe_toHex safe_padStart safe_toString)
qed

lemma sgr_code_clean:
  assumes "clean st"
  shows "clean (snd (sgr_code codes i st))"
  using assms unfolding sgr_code_def Let_def clean_def
  by (simp add: safe_palette safe_opt_None)
     (simp add: safe_opt_def safe_ansi256ToHex safe_append safe_Cons safe_Nil safe_toString)

lemma sgr_loop_clean: "clean st \<Longrightarrow> clean (sgr_loop codes i st)"
proof (induction codes i st rule: sgr_loop.induct)
  case (1 codes i state)
  show ?case
  proof (cases "i < length codes")
    case False
    with "1.prems" show ?thesis
      by (simp add: sgr_loop.simps [of codes i])
  next
    case True
    obtain i' state' where step: "sgr_code codes i state = (i', state')"
      by (cases "sgr_code codes i state")
    then have "clean state'"
      using sgr_code_clean [OF "1.prems", of codes i] by simp
    then have "clean (sgr_loop codes (Suc i') state')"
      by (rule "1.IH" [OF True step [symmetric]])
    then show ?thesis
      using True step by (simp add: sgr_loop.simps [of codes i])
  qed
qed

lemma segments_clean:
  "clean st \<Longrightarrow> (st', t) \<in> set (segments st lit s) \<Longrightarrow> clean st'"
proof (induction st lit s rule: segments.induct)
  case (1 st lit)
  then show ?case by simp
next
  case (2 st lit c cs)
  show ?case
  proof (cases "exec_at (c # cs)")
    case None
    with 2 show ?thesis by simp
  next
    case (Some ps)
    with "2.prems" have "(st', t) = (st, lit)
        \<or> (st', t) \<in> set (segments (sgr_loop (parse_codes ps) 0 st) [] (drop (length ps + 2) cs))"
      by simp
    then show ?thesis
      using "2.IH"(2) [OF Some] "2.prems"(1) sgr_loop_clean by blast
  qed
qed

lemma clean_empty: "clean empty_state"
  by (simp add: clean_def empty_state_def safe_opt_def)

lemma hasStyle_styles: "hasStyle st \<Longrightarrow> styles st \<noteq> []"
  by (auto simp: hasStyle_def styles_def)

lemma openSpan_styled:
  \<open>hasStyle st \<Longrightarrow> openSpan st = ''<span style="'' @ join '';'' (styles st) @ ''">''\<close>
  by (simp add: openSpan_def hasStyle_styles)

lemma truthy_str_Some: "truthy_str v \<Longrightarrow> \<exists>s. v = Some s \<and> s \<noteq> []"
  by (cases v) (simp_all add: truthy_str_def)

lemma in_optional: "d \<in> set (if c then [x] else []) \<longleftrightarrow> c \<and> d = x"
  by (cases c) simp_all

lemma styles_members:
  assumes "d \<in> set (styles st)"
  shows "(truthy_str (fg st) \<and> d = ''color:'' @ the (fg st))
     \<or> (truthy_str (bg st) \<and> d = ''background-color:'' @ the (bg st))
     \<or> (truthy_bool (bold st) \<and> d = ''font-weight:bold'')
     \<or> (truthy_bool (italic st) \<and> d = ''font-style:italic'')
     \<or> (truthy_bool (underline st) \<and> d = ''text-decoration:underline'')
     \<or> (truthy_bool (dim st) \<and> d = ''opacity:0.6'')"
  using assms unfolding styles_def set_append Un_iff in_optional by (simp only: disj_assoc)

lemma styles_safe:
  assumes "clean st" and "d \<in> set (styles st)"
  shows "d \<noteq> [] \<and> safe d"
  using styles_members [OF assms(2)]
proof (elim disjE conjE)
  assume "truthy_str (fg st)" and d: "d = ''color:'' @ the (fg st)"
  then have "safe (the (fg st))"
    using assms(1) truthy_str_Some [of "fg st"] by (auto simp: clean_def safe_opt_def)
  then show ?thesis
    by (simp add: d safe_append safe_Cons safe_Nil)
next
  assume "truthy_str (bg st)" and d: "d = ''background-color:'' @ the (bg st)"
  then have "safe (the (bg st))"
    using assms(1) truthy_str_Some [of "bg st"] by (auto simp: clean_def safe_opt_def)
  then show ?thesis
    by (simp add: d safe_append safe_Cons safe_Nil)
next
  assume d: "d = ''font-weight:bold''"
  show ?thesis
    by (simp add: d safe_Cons safe_Nil)
next
  assume d: "d = ''font-style:italic''"
  show ?thesis
    by (simp add: d safe_Cons safe_Nil)
next
  assume d: "d = ''text-decoration:underline''"
  show ?thesis
    by (simp add: d safe_Cons safe_Nil)
next
  assume d: "d = ''opacity:0.6''"
  show ?thesis
    by (simp add: d safe_Cons safe_Nil)
qed

lemma scoped_render:
  assumes "\<And>st t. (st, t) \<in> set segs \<Longrightarrow> clean st"
  shows "scoped (render segs)"
  using assms
proof (induction segs)
  case Nil
  show ?case
    by (simp add: render_def scoped_end)
next
  case (Cons seg segs)
  obtain st t where seg: "seg = (st, t)"
    by (cases seg)
  have rest: "scoped (render segs)"
  proof (rule Cons.IH)
    fix st' t'
    assume "(st', t') \<in> set segs"
    then show "clean st'"
      using Cons.prems [of st' t'] by simp
  qed
  have st: "clean st"
    using Cons.prems [of st t] seg by simp
  consider "t = []" | "t \<noteq> []" "\<not> hasStyle st" | "t \<noteq> []" "hasStyle st"
    by blast
  then show ?case
  proof cases
    case 1
    then show ?thesis
      using rest by (simp add: seg render_Cons emit_Nil)
  next
    case 2
    have "scoped (escapeHtml t @ render segs)"
      using escapeHtml_no_lt escapeHtml_no_gt rest by (rule scoped_plain)
    then show ?thesis
      using 2 by (simp add: seg render_Cons emit_def)
  next
    case 3
    have \<open>scoped (''<span style="'' @ join '';'' (styles st) @ ''">'' @ escapeHtml t
                    @ ''</span>'' @ render segs)\<close>
    proof (rule scoped_span)
      show "styles st \<noteq> []"
        using 3 by (simp add: hasStyle_styles)
      show "\<forall>d \<in> set (styles st). d \<noteq> [] \<and> safe d"
        using styles_safe [OF st] by blast
      show "escapeHtml t \<noteq> []"
        using 3 by (simp add: escapeHtml_not_Nil)
    qed (rule escapeHtml_no_lt escapeHtml_no_gt rest)+
    then show ?thesis
      using 3 by (simp add: seg render_Cons emit_def openSpan_styled)
  qed
qed

lemma count_sub_skip:
  "CHR ''<'' \<notin> set t \<Longrightarrow> count_sub (CHR ''<'' # p) (t @ rest) = count_sub (CHR ''<'' # p) rest"
  by (induction t) auto

lemma join_chars: "c \<in> set (join sep xs) \<Longrightarrow> c \<in> set sep \<or> (\<exists>x \<in> set xs. c \<in> set x)"
  by (induction sep xs rule: join.induct) auto

lemma join_no_lt:
  assumes "\<forall>d \<in> set decls. d \<noteq> [] \<and> safe d"
  shows "CHR ''<'' \<notin> set (join '';'' decls)"
proof
  assume "CHR ''<'' \<in> set (join '';'' decls)"
  then have "CHR ''<'' \<in> set '';'' \<or> (\<exists>x \<in> set decls. CHR ''<'' \<in> set x)"
    by (rule join_chars)
  with assms show False
    by (auto simp: safe_def)
qed

lemma count_open_span:
  assumes "CHR ''<'' \<notin> set body" and "CHR ''<'' \<notin> set t"
  shows \<open>count_sub ''<span'' (''<span style="'' @ body @ ''">'' @ t @ ''</span>'' @ rest)
           = Suc (count_sub ''<span'' rest)\<close>
  using assms by (simp add: count_sub_skip)

lemma count_close_span:
  assumes "CHR ''<'' \<notin> set body" and "CHR ''<'' \<notin> set t"
  shows \<open>count_sub ''</span>'' (''<span style="'' @ body @ ''">'' @ t @ ''</span>'' @ rest)
           = Suc (count_sub ''</span>'' rest)\<close>
  using assms by (simp add: count_sub_skip)

lemma scoped_counts: "scoped out \<Longrightarrow> count_sub ''<span'' out = count_sub ''</span>'' out"
proof (induction rule: scoped.induct)
  case scoped_end
  show ?case by simp
next
  case (scoped_plain t rest)
  then show ?case
    by (simp add: count_sub_skip)
next
  case (scoped_span decls t rest)
  have body: "CHR ''<'' \<notin> set (join '';'' decls)"
    using scoped_span.hyps(2) by (rule join_no_lt)
  have opened: \<open>count_sub ''<span'' (''<span style="'' @ join '';'' decls @ ''">'' @ t @ ''</span>'' @ rest)
           = Suc (count_sub ''<span'' rest)\<close>
    using body scoped_span.hyps(4) by (rule count_open_span)
  have closed: \<open>count_sub ''</span>'' (''<span style="'' @ join '';'' decls @ ''">'' @ t @ ''</span>'' @ rest)
           = Suc (count_sub ''</span>'' rest)\<close>
    using body scoped_span.hyps(4) by (rule count_close_span)
  show ?case
    unfolding opened closed using scoped_span.IH by simp
qed

subsection \<open>The loops end\<close>

lemma sgr_while_loop_ends:
  "\<exists>j. while_option (\<lambda>(i, state). i < length codes)
          (\<lambda>(i, state). case sgr_code codes i state of (i', state') \<Rightarrow> (Suc i', state'))
          (i, st) = Some (j, sgr_loop codes i st)"
proof (induction codes i st rule: sgr_loop.induct)
  case (1 codes i state)
  show ?case
  proof (cases "i < length codes")
    case False
    then show ?thesis
      by (subst while_option_unfold) (simp add: sgr_loop.simps [of codes i])
  next
    case True
    obtain i' state' where step: "sgr_code codes i state = (i', state')"
      by (cases "sgr_code codes i state")
    from "1.IH" [OF True step [symmetric]] obtain j where
      "while_option (\<lambda>(i, state). i < length codes)
          (\<lambda>(i, state). case sgr_code codes i state of (i', state') \<Rightarrow> (Suc i', state'))
          (Suc i', state') = Some (j, sgr_loop codes (Suc i') state')"
      by blast
    then show ?thesis
      using True step
      by (subst while_option_unfold) (simp add: sgr_loop.simps [of codes i])
  qed
qed

lemma sgr_while_total: "sgr_while codes st = Some (sgr_loop codes 0 st)"
  using sgr_while_loop_ends [of codes 0 st] by (auto simp: sgr_while_def)

lemma matchAll_while_loop_ends:
  "\<exists>j. while_option (\<lambda>(pos, found). pos < length inp)
          (\<lambda>(pos, found).
             case exec_at (drop pos inp) of
               Some ps \<Rightarrow>
                 (pos + length (ESC # CHR ''['' # ps @ ''m''),
                  found @ [\<lparr>index = pos, whole = ESC # CHR ''['' # ps @ ''m'', group1 = ps\<rparr>])
             | None \<Rightarrow> (Suc pos, found))
          (pos, found) = Some (j, found @ matchAll_from inp pos)"
proof (induction inp pos arbitrary: found rule: matchAll_from.induct)
  case (1 inp pos)
  show ?case
  proof (cases "pos < length inp")
    case False
    then show ?thesis
      by (subst while_option_unfold) (simp add: matchAll_from.simps [of inp pos])
  next
    case True
    show ?thesis
    proof (cases "exec_at (drop pos inp)")
      case None
      from "1.IH"(1) [OF True None, of found] show ?thesis
        using True None
        by (subst while_option_unfold) (simp add: matchAll_from.simps [of inp pos])
    next
      case (Some ps)
      from "1.IH"(2) [OF True Some,
          of "found @ [\<lparr>index = pos, whole = ESC # CHR ''['' # ps @ ''m'', group1 = ps\<rparr>]"]
      show ?thesis
        using True Some
        by (subst while_option_unfold) (simp add: matchAll_from.simps [of inp pos])
    qed
  qed
qed

lemma matchAll_while_total: "matchAll_while inp = Some (matchAll inp)"
  using matchAll_while_loop_ends [of inp 0 "[]"] by (auto simp: matchAll_while_def matchAll_def)

lemma for_body_opt_total: "for_body_opt inp m s = Some (for_body inp m s)"
  by (simp add: for_body_opt_def for_body_def sgr_while_total Let_def)

lemma for_each_total: "for_each (for_body_opt inp) ms s = Some (fold (for_body inp) ms s)"
  by (induction ms arbitrary: s) (simp_all add: for_body_opt_total)

lemma ansiToHtml_opt_total: "ansiToHtml_opt inp = Some (ansiToHtml inp)"
  by (simp add: ansiToHtml_opt_def ansiToHtml_def matchAll_while_total for_each_total Let_def)

subsection \<open>Unterminated sequences in any context\<close>

lemma segments_not_Nil: "segments st lit s \<noteq> []"
  by (induction st lit s rule: segments.induct) (auto split: option.splits)

lemma exec_at_before_ESC:
  assumes "p \<noteq> []"
  shows "exec_at (p @ ESC # r) = exec_at p"
proof (cases p)
  case Nil
  with assms show ?thesis by simp
next
  case (Cons e p1)
  show ?thesis
  proof (cases p1)
    case Nil
    with Cons show ?thesis
      by (simp add: exec_at_def)
  next
    case (Cons b body)
    have m: "\<not> is_param ESC"
      by (simp add: is_param_def)
    show ?thesis
    proof (cases "\<forall>c \<in> set body. is_param c")
      case True
      then have long: "dropWhile is_param (body @ ESC # r) = ESC # r"
        and short: "dropWhile is_param body = []"
        using m by (simp_all add: dropWhile_append2)
      show ?thesis
        unfolding \<open>p = e # p1\<close> \<open>p1 = b # body\<close> exec_at_def
        by (simp add: long short)
    next
      case False
      then obtain x where x: "x \<in> set body" "\<not> is_param x"
        by blast
      then have long: "dropWhile is_param (body @ ESC # r) = dropWhile is_param body @ ESC # r"
        and run: "takeWhile is_param (body @ ESC # r) = takeWhile is_param body"
        by (simp_all add: dropWhile_append1 takeWhile_append1)
      have "dropWhile is_param body \<noteq> []"
        using x by auto
      then obtain y ys where short: "dropWhile is_param body = y # ys"
        by (cases "dropWhile is_param body") auto
      show ?thesis
        unfolding \<open>p = e # p1\<close> \<open>p1 = b # body\<close> exec_at_def
        by (simp add: long run short)
    qed
  qed
qed

lemma exec_at_length:
  assumes "exec_at (c # cs) = Some ps"
  shows "length ps + 2 \<le> length cs"
proof -
  from exec_at_Some(1) [OF assms] obtain rest where "c # cs = ESC # CHR ''['' # ps @ CHR ''m'' # rest"
    by blast
  then have "cs = CHR ''['' # ps @ CHR ''m'' # rest"
    by simp
  then show ?thesis
    by simp
qed

lemma segments_before_ESC:
  assumes "segments st lit p = segs @ [(st', lit')]"
  shows "segments st lit (p @ ESC # r) = segs @ segments st' lit' (ESC # r)"
  using assms
proof (induction st lit p arbitrary: segs rule: segments.induct)
  case (1 st lit)
  then show ?case by simp
next
  case (2 st lit c cs)
  have same: "exec_at ((c # cs) @ ESC # r) = exec_at (c # cs)"
    by (rule exec_at_before_ESC) simp
  show ?case
  proof (cases "exec_at (c # cs)")
    case None
    then have "segments st (lit @ [c]) cs = segs @ [(st', lit')]"
      using "2.prems" by simp
    then have "segments st (lit @ [c]) (cs @ ESC # r) = segs @ segments st' lit' (ESC # r)"
      by (rule "2.IH"(1) [OF None])
    then show ?thesis
      using None same by simp
  next
    case (Some ps)
    let ?st2 = "sgr_loop (parse_codes ps) 0 st"
    let ?cs2 = "drop (length ps + 2) cs"
    from Some "2.prems" have whole: "(st, lit) # segments ?st2 [] ?cs2 = segs @ [(st', lit')]"
      by simp
    have "segments ?st2 [] ?cs2 \<noteq> []"
      by (rule segments_not_Nil)
    with whole obtain segs' where segs: "segs = (st, lit) # segs'"
      and rest: "segments ?st2 [] ?cs2 = segs' @ [(st', lit')]"
      by (cases segs) auto
    have "segments ?st2 [] (?cs2 @ ESC # r) = segs' @ segments st' lit' (ESC # r)"
      using rest by (rule "2.IH"(2) [OF Some])
    moreover have "drop (length ps + 2) (cs @ ESC # r) = ?cs2 @ ESC # r"
      using exec_at_length [OF Some] by simp
    ultimately show ?thesis
      using Some same segs by simp
  qed
qed

lemma segments_unterminated:
  assumes "\<forall>c \<in> set ps. is_param c"
    and "t = [] \<or> (hd t \<noteq> CHR ''m'' \<and> \<not> is_param (hd t))"
  shows "segments st lit (ESC # CHR ''['' # ps @ t) = segments st (lit @ ESC # CHR ''['' # ps) t"
proof -
  have fail: "exec_at (ESC # CHR ''['' # ps @ t) = None"
    using assms by (intro exec_at_unterminated) blast+
  have "ESC \<notin> set ps"
    using assms(1) is_param_not_ESC by blast
  then have "ESC \<notin> set (CHR ''['' # ps)"
    by simp
  then have "segments st (lit @ [ESC]) ((CHR ''['' # ps) @ t)
               = segments st ((lit @ [ESC]) @ CHR ''['' # ps) t"
    by (rule segments_skip)
  then show ?thesis
    using fail by simp
qed

lemma render_append: "render (a @ b) = render a @ render b"
  by (simp add: render_def)

subsection \<open>The indexed-colour resolver\<close>

text \<open>
  C4. For an index from 16 to 231 the resolver yields the 6x6x6 cube colour:
  with \<open>n = code - 16\<close>, the components \<open>n div 36\<close>, \<open>(n mod 36) div 6\<close> and
  \<open>n mod 6\<close> are each mapped to 0 or \<open>55 + 40 * component\<close> and rendered as two
  hexadecimal digits. For an index from 232 to 255 it yields the gray level
  \<open>(code - 232) * 10 + 8\<close>, rendered as two hexadecimal digits, three times.
  Index 196 gives \<open>#ff0000\<close> and index 244 gives \<open>#808080\<close>.
\<close>

theorem ansi256ToHex_cube_and_gray:
  "(16 \<le> code \<and> code \<le> 231 \<longrightarrow>
      ansi256ToHex code =
        ''#'' @ spec_hex2 (spec_cube_component ((code - 16) div 36))
             @ spec_hex2 (spec_cube_component (((code - 16) mod 36) div 6))
             @ spec_hex2 (spec_cube_component ((code - 16) mod 6)))
   \<and> (232 \<le> code \<and> code \<le> 255 \<longrightarrow>
      ansi256ToHex code =
        ''#'' @ spec_hex2 ((code - 232) * 10 + 8)
             @ spec_hex2 ((code - 232) * 10 + 8)
             @ spec_hex2 ((code - 232) * 10 + 8))
   \<and> ansi256ToHex 196 = ''#ff0000''
   \<and> ansi256ToHex 244 = ''#808080''"
proof (intro conjI impI)
  assume range: "16 \<le> code \<and> code \<le> 231"
  then have r: "(code - 16) div 36 < 6"
    and g: "((code - 16) mod 36) div 6 < 6"
    and b: "(code - 16) mod 6 < 6"
    by auto
  from range have "\<not> code < 16" and "code < 232"
    by auto
  then show "ansi256ToHex code =
        ''#'' @ spec_hex2 (spec_cube_component ((code - 16) div 36))
             @ spec_hex2 (spec_cube_component (((code - 16) mod 36) div 6))
             @ spec_hex2 (spec_cube_component ((code - 16) mod 6))"
    by (simp add: ansi256ToHex_def Let_def toHex_cube [OF r] toHex_cube [OF g]
          toHex_cube [OF b])
next
  assume range: "232 \<le> code \<and> code \<le> 255"
  then have "(code - 232) * 10 + 8 < 256"
    by auto
  then have "padStart 2 (CHR ''0'') (toString 16 ((code - 232) * 10 + 8))
               = spec_hex2 ((code - 232) * 10 + 8)"
    by (rule padStart_hex2)
  moreover from range have "\<not> code < 16" and "\<not> code < 232"
    by auto
  ultimately show "ansi256ToHex code =
        ''#'' @ spec_hex2 ((code - 232) * 10 + 8)
             @ spec_hex2 ((code - 232) * 10 + 8)
             @ spec_hex2 ((code - 232) * 10 + 8)"
    by (simp add: ansi256ToHex_def Let_def)
next
  show "ansi256ToHex 196 = ''#ff0000''"
    by code_simp
next
  show "ansi256ToHex 244 = ''#808080''"
    by code_simp
qed

theorem ansi256ToHex_cube_and_gray_witness:
  "(16::nat) \<le> 200 \<and> (200::nat) \<le> 231 \<and> ansi256ToHex 200 = ''#ff00d7''
   \<and> (232::nat) \<le> 250 \<and> (250::nat) \<le> 255 \<and> ansi256ToHex 250 = ''#bcbcbc''"
  using ansi256ToHex_cube_and_gray [of 200] ansi256ToHex_cube_and_gray [of 250]
  by (simp add: spec_hex2_def spec_cube_component_def digit_char_def)

subsection \<open>Reset\<close>

text \<open>
  C5. The line made of \<open>ESC[31m\<close>, \<open>x\<close>, \<open>ESC[0m\<close> and \<open>y\<close> is converted to \<open>x\<close>
  inside a span whose colour is entry 1 of the palette (red), followed by \<open>y\<close>
  with no span around it; and code 0, wherever it stands among the codes of a
  sequence, sets every field of the style state to unset.
\<close>

theorem reset_correct:
  \<open>ansiToHtml (ESC # ''[31mx'' @ ESC # ''[0my'')
      = ''<span style="color:'' @ the (ANSI_COLORS_16 1) @ ''">x</span>y''
   \<and> ANSI_COLORS_16 1 = Some ''#cd0000''
   \<and> sgr_code (pre @ 0 # post) (length pre) st = (length pre, empty_state)\<close>
proof (intro conjI)
  show \<open>ansiToHtml (ESC # ''[31mx'' @ ESC # ''[0my'')
      = ''<span style="color:'' @ the (ANSI_COLORS_16 1) @ ''">x</span>y''\<close>
    by code_simp
next
  show "ANSI_COLORS_16 1 = Some ''#cd0000''"
    by (simp add: ANSI_COLORS_16_def)
next
  show "sgr_code (pre @ 0 # post) (length pre) st = (length pre, empty_state)"
    by (simp add: sgr_code_def empty_state_def)
qed

subsection \<open>Malformed extended-colour selectors\<close>

text \<open>
  C1, as the code has it. When the code at index \<open>i\<close> is an extended-colour
  selector (38 or 48) whose following parameter is missing or is neither 5 nor 2,
  or whose index or channel triple is not all present, interpreting the selector
  changes no field of the style state and moves the scan on by exactly one
  parameter: the loop continues at \<open>i + 1\<close> with the same state, so the parameters
  after the selector are interpreted as codes of their own.
\<close>

theorem malformed_selector_skipped:
  assumes "malformed_selector codes i"
  shows "sgr_code codes i st = (i, st) \<and> sgr_loop codes i st = sgr_loop codes (Suc i) st"
proof -
  from assms have facts: "i < length codes" "codes ! i = 38 \<or> codes ! i = 48"
    "(at codes (i + 1) = Some 5 \<and> at codes (i + 2) \<noteq> None) = False"
    "(at codes (i + 1) = Some 2 \<and> at codes (i + 4) \<noteq> None) = False"
    by (simp_all add: malformed_selector_iff)
  have step: "sgr_code codes i st = (i, st)"
    using facts(2-4) by (rule sgr_code_malformed)
  then show ?thesis
    using facts(1) by (simp add: sgr_loop.simps [of codes i])
qed

theorem malformed_selector_skipped_witness:
  "malformed_selector [38, 7, 1] 0
   \<and> sgr_code [38, 7, 1] 0 empty_state = (0, empty_state)
   \<and> sgr_loop [38, 7, 1] 0 empty_state = sgr_loop [38, 7, 1] (Suc 0) empty_state"
proof -
  have bad: "malformed_selector [38, 7, 1] 0"
    by (simp add: malformed_selector_def at_def)
  show ?thesis
    using malformed_selector_skipped [OF bad, of empty_state] bad by simp
qed

text \<open>
  The sequence \<open>ESC[38;2;1;2m\<close> has a selector with an incomplete channel triple.
  Its leftover parameters 2, 1 and 2 are interpreted as dim, bold and dim, so the
  style state after the sequence is not the state before it.
\<close>

theorem malformed_selector_counterexample:
  \<open>parse_codes ''38;2;1;2'' = [38, 2, 1, 2]
   \<and> malformed_selector [38, 2, 1, 2] 0
   \<and> sgr_loop [38, 2, 1, 2] 0 empty_state
        = empty_state\<lparr>bold := Some True, dim := Some True\<rparr>
   \<and> sgr_loop [38, 2, 1, 2] 0 empty_state \<noteq> empty_state
   \<and> ansiToHtml (ESC # ''[38;2;1;2mx'') = ''<span style="font-weight:bold;opacity:0.6">x</span>''\<close>
proof (intro conjI)
  show "parse_codes ''38;2;1;2'' = [38, 2, 1, 2]"
    by code_simp
  show "malformed_selector [38, 2, 1, 2] 0"
    by (simp add: malformed_selector_def at_def)
  show run: "sgr_loop [38, 2, 1, 2] 0 empty_state
        = empty_state\<lparr>bold := Some True, dim := Some True\<rparr>"
    by code_simp
  show "sgr_loop [38, 2, 1, 2] 0 empty_state \<noteq> empty_state"
    unfolding run by (simp add: empty_state_def)
  show \<open>ansiToHtml (ESC # ''[38;2;1;2mx'') = ''<span style="font-weight:bold;opacity:0.6">x</span>''\<close>
    by code_simp
qed

subsection \<open>Totality and unterminated sequences\<close>

text \<open>
  C2. For every input string the converter ends and yields a string: written with
  while loops whose value is \<open>None\<close> when they do not end, it yields the string that
  \<open>ansiToHtml\<close> computes, and the loop over the matches runs at most once for each
  character of the input; no operation of the source can raise. An unterminated
  sequence, that is \<open>ESC [\<close> and parameter characters followed by the end of the text
  or by a character that is neither a parameter character nor \<open>m\<close>, does not match
  the pattern. Wherever it stands, in any style state and before any continuation,
  its characters join the literal text collected so far: after any text \<open>pre\<close>,
  whose scan always ends in some state \<open>st'\<close> with some literal text \<open>lit'\<close> pending, the
  output is that of the pieces before, followed by what the scan of the rest emits
  with the sequence added to \<open>lit'\<close>; and when no \<open>ESC\<close> follows, the output ends
  with \<open>lit'\<close>, the sequence and the rest, entity-escaped, inside a span if \<open>st'\<close>
  has a style. A line that holds such a sequence and no other \<open>ESC\<close> is converted to
  its own characters, entity-escaped.
\<close>

theorem unterminated_sequence_literal:
  "ansiToHtml_opt s = Some (ansiToHtml s)
   \<and> length (matchAll s) \<le> length s
   \<and> (\<exists>segs st' lit'. segments empty_state [] pre = segs @ [(st', lit')])
   \<and> ((\<forall>c \<in> set ps. is_param c) \<and> (t = [] \<or> (hd t \<noteq> CHR ''m'' \<and> \<not> is_param (hd t))) \<longrightarrow>
        exec_at (ESC # CHR ''['' # ps @ t) = None
        \<and> segments st lit (ESC # CHR ''['' # ps @ t) = segments st (lit @ ESC # CHR ''['' # ps) t
        \<and> (segments empty_state [] pre = segs @ [(st', lit')] \<longrightarrow>
             ansiToHtml (pre @ ESC # CHR ''['' # ps @ t)
               = render (segs @ segments st' (lit' @ ESC # CHR ''['' # ps) t)
             \<and> (ESC \<notin> set t \<longrightarrow>
                  ansiToHtml (pre @ ESC # CHR ''['' # ps @ t)
                    = render segs
                      @ (if hasStyle st'
                         then openSpan st' @ escapeHtml (lit' @ ESC # CHR ''['' # ps @ t) @ ''</span>''
                         else escapeHtml (lit' @ ESC # CHR ''['' # ps @ t))))
        \<and> (ESC \<notin> set pre \<and> ESC \<notin> set t \<longrightarrow>
             ansiToHtml (pre @ ESC # CHR ''['' # ps @ t) = escapeHtml (pre @ ESC # CHR ''['' # ps @ t)))"
proof (intro conjI impI)
  show "ansiToHtml_opt s = Some (ansiToHtml s)"
    by (rule ansiToHtml_opt_total)
  show "length (matchAll s) \<le> length s"
    using matchAll_from_bound [of s 0] by (simp add: matchAll_def)
  show "\<exists>segs st' lit'. segments empty_state [] pre = segs @ [(st', lit')]"
    using segments_not_Nil [of empty_state "[]" pre]
    by (cases "segments empty_state [] pre" rule: rev_cases) auto
next
  assume hyps: "(\<forall>c \<in> set ps. is_param c) \<and> (t = [] \<or> (hd t \<noteq> CHR ''m'' \<and> \<not> is_param (hd t)))"
  then show "exec_at (ESC # CHR ''['' # ps @ t) = None"
    by (intro exec_at_unterminated) blast+
  from hyps show joined:
    "segments st lit (ESC # CHR ''['' # ps @ t) = segments st (lit @ ESC # CHR ''['' # ps) t"
    for st lit
    by (intro segments_unterminated) blast+
  {
    assume last: "segments empty_state [] pre = segs @ [(st', lit')]"
    have "segments empty_state [] (pre @ ESC # CHR ''['' # ps @ t)
            = segs @ segments st' lit' (ESC # CHR ''['' # ps @ t)"
      using last by (rule segments_before_ESC)
    then have whole: "segments empty_state [] (pre @ ESC # CHR ''['' # ps @ t)
            = segs @ segments st' (lit' @ ESC # CHR ''['' # ps) t"
      by (simp only: joined)
    then show general: "ansiToHtml (pre @ ESC # CHR ''['' # ps @ t)
               = render (segs @ segments st' (lit' @ ESC # CHR ''['' # ps) t)"
      by (simp only: ansiToHtml_segments)
    {
      assume "ESC \<notin> set t"
      then have "segments st' (lit' @ ESC # CHR ''['' # ps) t
                   = [(st', (lit' @ ESC # CHR ''['' # ps) @ t)]"
        by (rule segments_plain)
      then show "ansiToHtml (pre @ ESC # CHR ''['' # ps @ t)
                    = render segs
                      @ (if hasStyle st'
                         then openSpan st' @ escapeHtml (lit' @ ESC # CHR ''['' # ps @ t) @ ''</span>''
                         else escapeHtml (lit' @ ESC # CHR ''['' # ps @ t))"
        unfolding general by (simp add: render_append render_def emit_def)
    }
  }
  {
    assume plain: "ESC \<notin> set pre \<and> ESC \<notin> set t"
    then have "segments empty_state [] pre = [] @ [(empty_state, [] @ pre)]"
      by (simp add: segments_plain)
    then have "segments empty_state [] (pre @ ESC # CHR ''['' # ps @ t)
            = [] @ segments empty_state ([] @ pre) (ESC # CHR ''['' # ps @ t)"
      by (rule segments_before_ESC)
    also have "\<dots> = segments empty_state (pre @ ESC # CHR ''['' # ps) t"
      by (simp only: joined append_Nil)
    also have "\<dots> = [(empty_state, (pre @ ESC # CHR ''['' # ps) @ t)]"
      using plain by (intro segments_plain) blast
    finally show "ansiToHtml (pre @ ESC # CHR ''['' # ps @ t)
                    = escapeHtml (pre @ ESC # CHR ''['' # ps @ t)"
      by (simp add: ansiToHtml_segments render_def emit_empty_state)
  }
qed

theorem unterminated_sequence_literal_witness:
  \<open>ansiToHtml_opt (ESC # ''[31mred '' @ ESC # ''[1'')
      = Some (''<span style="color:#cd0000">red '' @ ESC # ''[1</span>'')
   \<and> exec_at (ESC # ''[1'') = None
   \<and> ansiToHtml (''a&b'' @ ESC # ''[31;1<b>'') = ''a&amp;b'' @ ESC # ''[31;1&lt;b&gt;''\<close>
proof -
  have segs: "segments empty_state [] (ESC # ''[31mred '')
                = [(empty_state, [])] @ [(empty_state\<lparr>fg := Some ''#cd0000''\<rparr>, ''red '')]"
    by code_simp
  have one: "\<forall>c \<in> set ''1''. is_param c"
    by (simp add: is_param_def)
  have red: "hasStyle (empty_state\<lparr>fg := Some ''#cd0000''\<rparr>)"
    by (simp add: hasStyle_def truthy_str_def)
  have span: \<open>openSpan (empty_state\<lparr>fg := Some ''#cd0000''\<rparr>) = ''<span style="color:#cd0000">''\<close>
    by (simp add: openSpan_def styles_def truthy_str_def truthy_bool_def empty_state_def)
  have styled: \<open>ansiToHtml (ESC # ''[31mred '' @ ESC # ''[1'')
                  = ''<span style="color:#cd0000">red '' @ ESC # ''[1</span>''\<close>
    and total: "ansiToHtml_opt (ESC # ''[31mred '' @ ESC # ''[1'')
                  = Some (ansiToHtml (ESC # ''[31mred '' @ ESC # ''[1''))"
    and fail: "exec_at (ESC # ''[1'') = None"
    using unterminated_sequence_literal
      [where s = "ESC # ''[31mred '' @ ESC # ''[1''" and ps = "''1''" and t = "[]"
         and pre = "ESC # ''[31mred ''" and segs = "[(empty_state, [])]"
         and st' = "empty_state\<lparr>fg := Some ''#cd0000''\<rparr>" and lit' = "''red ''"
         and st = empty_state and lit = "[]", unfolded segs] one
    by (simp_all add: red span render_def emit_def escapeHtml_def replaceAll_def)
  have params: "\<forall>c \<in> set ''31;1''. is_param c"
    by (simp add: is_param_def)
  have stop: "''<b>'' = [] \<or> (hd ''<b>'' \<noteq> CHR ''m'' \<and> \<not> is_param (hd ''<b>''))"
    by (simp add: is_param_def)
  have plain: "ansiToHtml (''a&b'' @ ESC # ''[31;1<b>'') = ''a&amp;b'' @ ESC # ''[31;1&lt;b&gt;''"
    using unterminated_sequence_literal
      [where ps = "''31;1''" and t = "''<b>''" and pre = "''a&b''"] params stop
    by (simp add: escapeHtml_def replaceAll_def)
  show ?thesis
    using styled total fail plain by simp
qed

subsection \<open>Truecolour\<close>

text \<open>
  C3, as the code has it. A truecolour selector \<open>38;2;R;G;B\<close> (or \<open>48;2;R;G;B\<close>)
  whose three channels are present and below \<open>2^53\<close> sets the foreground (or
  background) to \<open>rgb(R,G,B)\<close>, the three parsed parameters written in decimal and
  unchanged, and consumes four more parameters. Such a parameter is the number its
  digits denote; no channel is clamped.
\<close>

theorem truecolor_passthrough:
  \<open>(codes ! i = 38 \<and> at codes (i + 1) = Some 2 \<and> at codes (i + 4) \<noteq> None
      \<and> safe_integer (codes ! (i + 2)) \<and> safe_integer (codes ! (i + 3))
      \<and> safe_integer (codes ! (i + 4)) \<longrightarrow>
      sgr_code codes i st
        = (i + 4, st\<lparr>fg := Some (spec_rgb (codes ! (i + 2)) (codes ! (i + 3)) (codes ! (i + 4)))\<rparr>))
   \<and> (codes ! i = 48 \<and> at codes (i + 1) = Some 2 \<and> at codes (i + 4) \<noteq> None
      \<and> safe_integer (codes ! (i + 2)) \<and> safe_integer (codes ! (i + 3))
      \<and> safe_integer (codes ! (i + 4)) \<longrightarrow>
      sgr_code codes i st
        = (i + 4, st\<lparr>bg := Some (spec_rgb (codes ! (i + 2)) (codes ! (i + 3)) (codes ! (i + 4)))\<rparr>))
   \<and> (safe_integer r \<and> safe_integer g \<and> safe_integer b \<longrightarrow>
        ansiToHtml (ESC # ''[38;2;'' @ toString 10 r @ '';'' @ toString 10 g @ '';''
                      @ toString 10 b @ ''mx'')
          = ''<span style="color:rgb('' @ toString 10 r @ '','' @ toString 10 g @ '',''
              @ toString 10 b @ '')">x</span>''
        \<and> ansiToHtml (ESC # ''[48;2;'' @ toString 10 r @ '';'' @ toString 10 g @ '';''
                      @ toString 10 b @ ''mx'')
          = ''<span style="background-color:rgb('' @ toString 10 r @ '','' @ toString 10 g @ '',''
              @ toString 10 b @ '')">x</span>''
        \<and> parseInt (toString 10 r) = r)\<close>
proof (intro conjI impI)
  have sel: "toString 10 38 = ''38''" "toString 10 48 = ''48''"
    by code_simp+
  show \<open>ansiToHtml (ESC # ''[38;2;'' @ toString 10 r @ '';'' @ toString 10 g @ '';''
                    @ toString 10 b @ ''mx'')
        = ''<span style="color:rgb('' @ toString 10 r @ '','' @ toString 10 g @ '',''
            @ toString 10 b @ '')">x</span>''\<close>
    using ansiToHtml_truecolor [of 38 r g b]
    by (simp add: sel sgr_loop_truecolor_fg emit_fg_only) (simp add: spec_rgb_def)
  show \<open>ansiToHtml (ESC # ''[48;2;'' @ toString 10 r @ '';'' @ toString 10 g @ '';''
                    @ toString 10 b @ ''mx'')
        = ''<span style="background-color:rgb('' @ toString 10 r @ '','' @ toString 10 g @ '',''
            @ toString 10 b @ '')">x</span>''\<close>
    using ansiToHtml_truecolor [of 48 r g b]
    by (simp add: sel sgr_loop_truecolor_bg emit_bg_only) (simp add: spec_rgb_def)
  show "parseInt (toString 10 r) = r"
    by (rule parseInt_toString)
qed (simp_all add: sgr_code_truecolor_fg sgr_code_truecolor_bg)

theorem truecolor_passthrough_witness:
  \<open>sgr_code [1, 38, 2, 10, 20, 30] 1 empty_state
      = (5, empty_state\<lparr>fg := Some ''rgb(10,20,30)''\<rparr>)
   \<and> sgr_code [48, 2, 300, 0, 7] 0 empty_state
      = (4, empty_state\<lparr>bg := Some ''rgb(300,0,7)''\<rparr>)
   \<and> ansiToHtml (ESC # ''[38;2;10;20;30mx'') = ''<span style="color:rgb(10,20,30)">x</span>''\<close>
proof -
  have digits: "toString 10 10 = ''10''" "toString 10 20 = ''20''" "toString 10 30 = ''30''"
    "toString 10 300 = ''300''" "toString 10 0 = ''0''" "toString 10 7 = ''7''"
    by code_simp+
  have small: "safe_integer 10" "safe_integer 20" "safe_integer 30" "safe_integer 300"
    "safe_integer 0" "safe_integer 7"
    by (simp_all add: safe_integer_def)
  show ?thesis
    using truecolor_passthrough [of "[1, 38, 2, 10, 20, 30]" 1 empty_state 10 20 30]
      truecolor_passthrough [of "[48, 2, 300, 0, 7]" 0 empty_state]
    by (simp add: at_def spec_rgb_def digits small)
qed

text \<open>The channel 999 of \<open>ESC[38;2;999;0;0m\<close> reaches the colour value as it is.\<close>

theorem truecolor_clamp_counterexample:
  \<open>parse_codes ''38;2;999;0;0'' = [38, 2, 999, 0, 0]
   \<and> fg (sgr_loop [38, 2, 999, 0, 0] 0 empty_state) = Some ''rgb(999,0,0)''
   \<and> \<not> (999::nat) \<le> 255
   \<and> ansiToHtml (ESC # ''[38;2;999;0;0mx'') = ''<span style="color:rgb(999,0,0)">x</span>''\<close>
proof (intro conjI)
  show "parse_codes ''38;2;999;0;0'' = [38, 2, 999, 0, 0]"
    by code_simp
  show "fg (sgr_loop [38, 2, 999, 0, 0] 0 empty_state) = Some ''rgb(999,0,0)''"
    by code_simp
  show "\<not> (999::nat) \<le> 255"
    by simp
  show \<open>ansiToHtml (ESC # ''[38;2;999;0;0mx'') = ''<span style="color:rgb(999,0,0)">x</span>''\<close>
    by code_simp
qed

subsection \<open>Unknown codes\<close>

text \<open>
  C7. A code that the mutation table does not list leaves the index and every
  field of the style state as they are, wherever it stands among the codes of a
  sequence; and a line that starts with the sequence of such a code alone is
  converted as the rest of the line is. Code 99 is such a code.
\<close>

theorem unknown_code_noop:
  "(\<not> listed_code c \<longrightarrow>
      sgr_code (pre @ c # post) (length pre) st = (length pre, st)
      \<and> ansiToHtml (ESC # CHR ''['' # toString 10 c @ ''m'' @ t) = ansiToHtml t)
   \<and> \<not> listed_code 99
   \<and> ansiToHtml (ESC # ''[99m'' @ t) = ansiToHtml t"
proof -
  have general: "ansiToHtml (ESC # CHR ''['' # toString 10 n @ ''m'' @ t) = ansiToHtml t"
    if "\<not> listed_code n" for n
  proof -
    have "segments empty_state [] (ESC # CHR ''['' # toString 10 n @ CHR ''m'' # t)
            = (empty_state, []) # segments (sgr_loop (parse_codes (toString 10 n)) 0 empty_state) [] t"
      by (rule segments_match) (rule toString_is_param)
    also have "sgr_loop (parse_codes (toString 10 n)) 0 empty_state = empty_state"
      using that by (simp add: parse_codes_single sgr_loop_single_unlisted)
    finally show ?thesis
      by (simp add: ansiToHtml_segments render_Cons emit_Nil)
  qed
  have unlisted: "\<not> listed_code 99"
    by (simp add: listed_code_def)
  have "toString 10 99 = ''99''"
    by code_simp
  with general [OF unlisted] have "ansiToHtml (ESC # ''[99m'' @ t) = ansiToHtml t"
    by simp
  moreover have "sgr_code (pre @ c # post) (length pre) st = (length pre, st)"
    if "\<not> listed_code c"
    using that by (simp add: sgr_code_unlisted)
  ultimately show ?thesis
    using general unlisted by blast
qed

theorem unknown_code_noop_witness:
  "\<not> listed_code 5
   \<and> sgr_code ([1] @ 5 # [4]) (length [1::nat]) empty_state = (length [1::nat], empty_state)
   \<and> ansiToHtml (ESC # ''[5m'' @ ''a<b'') = ''a&lt;b''"
proof -
  have unlisted: "\<not> listed_code 5"
    by (simp add: listed_code_def)
  have digits: "toString 10 5 = ''5''"
    by code_simp
  have plain: "ansiToHtml ''a<b'' = ''a&lt;b''"
    by code_simp
  show ?thesis
    using unknown_code_noop [of 5 "[1]" "[4]" empty_state "''a<b''"] unlisted digits plain
    by simp
qed

subsection \<open>Plain text\<close>



subsection \<open>Escaped text\<close>

text \<open>
  C6. The output of the converter is the concatenation of its segments in order,
  and each segment with non-empty text contributes that text entity-escaped, bare
  or between an opening and a closing span marker. Escaped text holds no \<open><\<close> and
  no \<open>>\<close>, and every \<open>&\<close> in it starts an entity. The line \<open><script>\<close> is
  converted to \<open>&lt;script&gt;\<close>, which does not contain \<open><script>\<close>.
\<close>

theorem text_is_escaped:
  "ansiToHtml inp = concat (map (\<lambda>(st, t).
       if t = [] then []
       else if hasStyle st then openSpan st @ escapeHtml t @ ''</span>''
       else escapeHtml t) (segments empty_state [] inp))
   \<and> CHR ''<'' \<notin> set (escapeHtml s)
   \<and> CHR ''>'' \<notin> set (escapeHtml s)
   \<and> amp_escaped (escapeHtml s)
   \<and> ansiToHtml ''<script>'' = ''&lt;script&gt;''
   \<and> \<not> sublist ''<script>'' (ansiToHtml ''<script>'')"
proof (intro conjI)
  show "ansiToHtml inp = concat (map (\<lambda>(st, t).
       if t = [] then []
       else if hasStyle st then openSpan st @ escapeHtml t @ ''</span>''
       else escapeHtml t) (segments empty_state [] inp))"
    by (simp only: ansiToHtml_segments render_emit)
  show "CHR ''<'' \<notin> set (escapeHtml s)"
    by (rule escapeHtml_no_lt)
  show "CHR ''>'' \<notin> set (escapeHtml s)"
    by (rule escapeHtml_no_gt)
  show "amp_escaped (escapeHtml s)"
    by (rule escapeHtml_amp)
  show out: "ansiToHtml ''<script>'' = ''&lt;script&gt;''"
    by code_simp
  show "\<not> sublist ''<script>'' (ansiToHtml ''<script>'')"
  proof
    assume "sublist ''<script>'' (ansiToHtml ''<script>'')"
    then have "set ''<script>'' \<subseteq> set (ansiToHtml ''<script>'')"
      by (rule set_mono_sublist)
    then show False
      unfolding out by simp
  qed
qed

theorem text_is_escaped_witness:
  "ansiToHtml (ESC # ''[1ma<b'') = openSpan (empty_state\<lparr>bold := Some True\<rparr>) @ ''a&lt;b</span>''
   \<and> amp_escaped (escapeHtml ''a&b<c'')
   \<and> escapeHtml ''a&b<c'' = ''a&amp;b&lt;c''"
proof -
  have segs: "segments empty_state [] (ESC # ''[1ma<b'')
                = [(empty_state, []), (empty_state\<lparr>bold := Some True\<rparr>, ''a<b'')]"
    by code_simp
  have bold: "hasStyle (empty_state\<lparr>bold := Some True\<rparr>)"
    by (simp add: hasStyle_def truthy_bool_def)
  have esc: "escapeHtml ''a<b'' = ''a&lt;b''" "escapeHtml ''a&b<c'' = ''a&amp;b&lt;c''"
    by (simp_all add: escapeHtml_def replaceAll_def)
  show ?thesis
    using text_is_escaped [of "ESC # ''[1ma<b''" "''a&b<c''", unfolded segs]
    by (simp add: bold esc)
qed

subsection \<open>Balanced style scopes\<close>

text \<open>
  C10. For every input the output is a sequence of pieces, each either escaped
  text or a span that opens with at least one style declaration, wraps one
  non-empty escaped text and closes right after it; so scopes never nest and none
  stays open, and the opening markers are as many as the closing markers.
\<close>

theorem balanced_scopes:
  "scoped (ansiToHtml inp)
   \<and> count_sub ''<span'' (ansiToHtml inp) = count_sub ''</span>'' (ansiToHtml inp)"
proof -
  have "clean st" if "(st, t) \<in> set (segments empty_state [] inp)" for st t
    using clean_empty that by (rule segments_clean)
  then have "scoped (render (segments empty_state [] inp))"
    by (rule scoped_render)
  then have "scoped (ansiToHtml inp)"
    by (simp only: ansiToHtml_segments)
  then show ?thesis
    using scoped_counts by blast
qed

theorem balanced_scopes_witness:
  \<open>ansiToHtml (''a'' @ ESC # ''[1;31mb'' @ ESC # ''[0mc'' @ ESC # ''[4md'')
      = ''a<span style="color:#cd0000;font-weight:bold">b</span>c<span style="text-decoration:underline">d</span>''
   \<and> scoped (''a<span style="color:#cd0000;font-weight:bold">b</span>c<span style="text-decoration:underline">d</span>'')
   \<and> count_sub ''<span'' (''a<span style="color:#cd0000;font-weight:bold">b</span>c<span style="text-decoration:underline">d</span>'') = 2
   \<and> count_sub ''</span>'' (''a<span style="color:#cd0000;font-weight:bold">b</span>c<span style="text-decoration:underline">d</span>'') = 2\<close>
proof -
  have out: \<open>ansiToHtml (''a'' @ ESC # ''[1;31mb'' @ ESC # ''[0mc'' @ ESC # ''[4md'')
      = ''a<span style="color:#cd0000;font-weight:bold">b</span>c<span style="text-decoration:underline">d</span>''\<close>
    by code_simp
  have two: \<open>count_sub ''<span'' (''a<span style="color:#cd0000;font-weight:bold">b</span>c<span style="text-decoration:underline">d</span>'') = 2\<close>
    by simp
  show ?thesis
    using balanced_scopes [of "''a'' @ ESC # ''[1;31mb'' @ ESC # ''[0mc'' @ ESC # ''[4md''"]
    unfolding out using out two by simp
qed

subsection \<open>Joining lines\<close>

lemma join_Cons_concat: "join sep (x # xs) = x @ concat (map (\<lambda>y. sep @ y) xs)"
  by (induction xs arbitrary: x) simp_all

text \<open>
  C9. Converting a sequence of lines converts each line by itself and joins the
  results with the line-break marker \<open><br>\<close>: no line gives the empty string, one
  line gives its conversion, and a line followed by further lines gives its
  conversion and then, for each further line, the marker and its conversion. For
  two lines \<open>a\<close> and \<open>b\<close> this is the conversion of \<open>a\<close>, the marker and the
  conversion of \<open>b\<close>.
\<close>

theorem ansiLinesToHtml_join:
  "ansiLinesToHtml [] = []
   \<and> ansiLinesToHtml [a] = ansiToHtml a
   \<and> ansiLinesToHtml (a # b # ls) = ansiToHtml a @ ''<br>'' @ ansiLinesToHtml (b # ls)
   \<and> ansiLinesToHtml (a # ls) = ansiToHtml a @ concat (map (\<lambda>l. ''<br>'' @ ansiToHtml l) ls)
   \<and> ansiLinesToHtml [a, b] = ansiToHtml a @ ''<br>'' @ ansiToHtml b"
proof -
  have "ansiLinesToHtml (a # ls) = ansiToHtml a @ concat (map (\<lambda>l. ''<br>'' @ ansiToHtml l) ls)"
    by (simp add: ansiLinesToHtml_def join_Cons_concat comp_def)
  then show ?thesis
    by (simp add: ansiLinesToHtml_def)
qed

end
